theory Spec2Isabelle
  imports Main
begin

section \<open>The thebe liquid tag of pelican-plugins\<close>

text \<open>
  A shallow embedding of \<^verbatim>\<open>liquid_tags/thebe.py\<close>: the regular expression
  \<^verbatim>\<open>FORMAT\<close> with the backtracking matcher that Python's \<^verbatim>\<open>re\<close>
  module runs on it, the argument handling of \<^verbatim>\<open>thebe\<close>, the preprocessor
  \<^verbatim>\<open>SubCell\<close> on an explicit store of Python objects, and
  \<^verbatim>\<open>custom_highlighter\<close>.
\<close>

subsection \<open>Errors\<close>

text \<open>
  Every exception the module raises itself is a \<^verbatim>\<open>ValueError\<close> with a message.
  \<^verbatim>\<open>AttributeError\<close> is what attribute access on a notebook node raises when the
  attribute is missing; \<^verbatim>\<open>External\<close> stands for whatever a collaborator
  (the file system, nbformat, nbconvert, pygments) raises.
\<close>

datatype error = ValueError string | AttributeError string | External string

subsection \<open>Character classes of the pattern\<close>

text \<open>
  A Python 3 \<^verbatim>\<open>str\<close> is the list of its code points; the model has the code points
  below 256, one \<open>char\<close> each. \<^verbatim>\<open>FORMAT\<close> is a \<^verbatim>\<open>str\<close> pattern compiled without
  \<^verbatim>\<open>re.ASCII\<close>, so \<^verbatim>\<open>\s\<close> matches every code point that is white space in
  Unicode: in this range \<^verbatim>\<open>\t \n \v \f \r\<close> (9 to 13), the separators 28 to 31, the
  space (32), \<^verbatim>\<open>U+0085\<close> and \<^verbatim>\<open>U+00A0\<close>. \<^verbatim>\<open>\S\<close> is the complement.
  The ranges \<^verbatim>\<open>[0-9]\<close> and \<^verbatim>\<open>[a-z]\<close> are literal.
\<close>

definition is_space :: "char \<Rightarrow> bool" where
  "is_space c \<longleftrightarrow>
     (let n = (of_char c :: nat)
      in (9 \<le> n \<and> n \<le> 13) \<or> (28 \<le> n \<and> n \<le> 32) \<or> n = 133 \<or> n = 160)"

definition is_digit :: "char \<Rightarrow> bool" where
  "is_digit c \<longleftrightarrow> (let n = (of_char c :: nat) in 48 \<le> n \<and> n \<le> 57)"

definition is_lower :: "char \<Rightarrow> bool" where
  "is_lower c \<longleftrightarrow> (let n = (of_char c :: nat) in 97 \<le> n \<and> n \<le> 122)"

datatype cclass = Space | NonSpace | Digit | LangChar

fun in_class :: "cclass \<Rightarrow> char \<Rightarrow> bool" where
  "in_class Space c = is_space c"
| "in_class NonSpace c = (\<not> is_space c)"
| "in_class Digit c = is_digit c"
| "in_class LangChar c = (is_lower c \<or> is_digit c \<or> c = CHR ''+'' \<or> c = CHR ''-'')"

subsection \<open>Regular expressions and the backtracking matcher\<close>

text \<open>
  The constructs \<^verbatim>\<open>FORMAT\<close> uses: the anchors, literal text, greedy repetition of a
  character class, the greedy optional \<^verbatim>\<open>r?\<close>, concatenation, and groups
  (named ones are what \<^verbatim>\<open>groupdict\<close> returns).
\<close>

datatype regex =
    Bol
  | Eol
  | Lit string
  | Plus cclass
  | Star cclass
  | Opt regex
  | Seq regex regex
  | Group regex
  | Named string regex

text \<open>
  A matcher state is the position in the subject, the rest of the subject from there, and
  the named groups set so far (latest first).
\<close>

type_synonym mstate = "nat \<times> string \<times> (string \<times> string) list"

text \<open>
  The end positions of a greedy repetition that may take at most \<open>n\<close> and at least
  \<open>lo\<close> characters, longest first.
\<close>

definition greedy :: "nat \<Rightarrow> cclass \<Rightarrow> mstate \<Rightarrow> mstate list" where
  "greedy lo cl st = (case st of (i, s, g) \<Rightarrow>
     map (\<lambda>k. (i + k, drop k s, g)) (rev [lo..<Suc (length (takeWhile (in_class cl) s))]))"

text \<open>
  \<open>rmatch r st\<close> lists every way \<open>r\<close> can match at \<open>st\<close>, in the order in which a
  backtracking matcher tries them; the head is the match it reports.
\<close>

fun rmatch :: "regex \<Rightarrow> mstate \<Rightarrow> mstate list" where
  "rmatch Bol (i, s, g) = (if i = 0 then [(i, s, g)] else [])"
| "rmatch Eol (i, s, g) = (if s = [] \<or> s = [CHR 0x0A] then [(i, s, g)] else [])"
| "rmatch (Lit t) (i, s, g) =
     (if take (length t) s = t then [(i + length t, drop (length t) s, g)] else [])"
| "rmatch (Plus cl) st = greedy 1 cl st"
| "rmatch (Star cl) st = greedy 0 cl st"
| "rmatch (Opt r) st = rmatch r st @ [st]"
| "rmatch (Seq r1 r2) st = concat (map (rmatch r2) (rmatch r1 st))"
| "rmatch (Group r) st = rmatch r st"
| "rmatch (Named n r) (i, s, g) =
     map (\<lambda>(j, s', g'). (j, s', (n, take (j - i) s) # g')) (rmatch r (i, s, g))"

text \<open>
  \<^verbatim>\<open>pattern.search(subject)\<close> tries every start position from the left and returns
  the first match, as the \<^verbatim>\<open>groupdict\<close> of its named groups.
\<close>

fun first_match :: "regex \<Rightarrow> string \<Rightarrow> nat list \<Rightarrow> (string \<times> string) list option" where
  "first_match r s [] = None"
| "first_match r s (i # is) =
     (case rmatch r (i, drop i s, []) of
        [] \<Rightarrow> first_match r s is
      | (j, s', g) # _ \<Rightarrow> Some g)"

definition search :: "regex \<Rightarrow> string \<Rightarrow> (string \<times> string) list option" where
  "search r s = first_match r s [0..<Suc (length s)]"

text \<open>
  The concatenation of a list of patterns; it ends in the empty literal, which matches
  everywhere and consumes nothing.
\<close>

fun seqs :: "regex list \<Rightarrow> regex" where
  "seqs [] = Lit []"
| "seqs (r # rs) = Seq r (seqs rs)"

text \<open>
  The pattern \<^verbatim>\<open>FORMAT\<close>, with its two bracketed clauses named:
  \<^verbatim>\<open>^(\s+)?(?P<src>\S+)(\s+)?(CELLS)?(\s+)?(LANGUAGE)?(\s+)?$\<close> where
  \<^verbatim>\<open>CELLS\<close> is \<^verbatim>\<open>(cells\[)(?P<start>-?[0-9]*):(?P<end>-?[0-9]*)(\])\<close> and
  \<^verbatim>\<open>LANGUAGE\<close> is \<^verbatim>\<open>(language\[)(?P<language>-?[a-z0-9\+\-]*)(\])\<close>.
\<close>

definition cells_re :: regex where
  "cells_re = Group (seqs
     [Group (Lit ''cells[''),
      Named ''start'' (Seq (Opt (Lit ''-'')) (Star Digit)),
      Lit '':'',
      Named ''end'' (Seq (Opt (Lit ''-'')) (Star Digit)),
      Group (Lit '']'')])"

definition language_re :: regex where
  "language_re = Group (seqs
     [Group (Lit ''language[''),
      Named ''language'' (Seq (Opt (Lit ''-'')) (Star LangChar)),
      Group (Lit '']'')])"

definition FORMAT :: regex where
  "FORMAT = seqs
     [Bol,
      Opt (Group (Plus Space)),
      Named ''src'' (Plus NonSpace),
      Opt (Group (Plus Space)),
      Opt cells_re,
      Opt (Group (Plus Space)),
      Opt language_re,
      Opt (Group (Plus Space)),
      Eol]"

definition SYNTAX :: string where
  "SYNTAX = ''{% thebe /path/to/notebook.ipynb [ cells[start:end] ] [ language[language] ] %}''"

subsection \<open>Argument handling of \<^verbatim>\<open>thebe\<close>\<close>

text \<open>
  \<^verbatim>\<open>int(s)\<close> on the strings the groups \<^verbatim>\<open>start\<close> and \<^verbatim>\<open>end\<close> can hold
  (\<^verbatim>\<open>-?[0-9]*\<close>): an optional sign and at least one digit, anything else raises
  \<^verbatim>\<open>ValueError\<close>. Integers are unbounded; the limit that some interpreters put on
  the number of digits \<^verbatim>\<open>int\<close> converts (4300 by default) is not modelled.
\<close>

definition digit_val :: "char \<Rightarrow> int" where
  "digit_val c = int (of_char c) - 48"

definition digits_val :: "string \<Rightarrow> int" where
  "digits_val ds = foldl (\<lambda>a c. 10 * a + digit_val c) 0 ds"

definition invalid_literal :: "string \<Rightarrow> error" where
  "invalid_literal s = ValueError (''invalid literal for int() with base 10: '' @ [CHR 0x27] @ s @ [CHR 0x27])"

definition py_int :: "string \<Rightarrow> error + int" where
  "py_int s =
     (let (neg, ds) = (case s of c # cs \<Rightarrow> if c = CHR ''-'' then (True, cs)
                                          else if c = CHR ''+'' then (False, cs) else (False, s)
                                | [] \<Rightarrow> (False, s))
      in if ds = [] \<or> \<not> list_all is_digit ds then Inl (invalid_literal s)
         else Inr (if neg then - digits_val ds else digits_val ds))"

text \<open>The truth value of a group: \<^verbatim>\<open>None\<close> and the empty string are false.\<close>

fun truthy :: "string option \<Rightarrow> bool" where
  "truthy None = False"
| "truthy (Some s) = (s \<noteq> [])"

record directive =
  arg_src :: string
  arg_start :: int
  arg_end :: "int option"
  arg_language :: "string option"

definition malformed :: error where
  "malformed = ValueError (''Error processing input, expected syntax: '' @ SYNTAX)"

text \<open>
  Lines 103 to 122 of \<^verbatim>\<open>thebe\<close>: the match, the four groups, and the conversion
  of \<^verbatim>\<open>start\<close> and \<^verbatim>\<open>end\<close>. A group that took no part in the match is
  \<^verbatim>\<open>None\<close>; \<^verbatim>\<open>src\<close> takes part in every match.
\<close>

definition thebe_args :: "string \<Rightarrow> error + directive" where
  "thebe_args markup =
     (case search FORMAT markup of
        None \<Rightarrow> Inl malformed
      | Some argdict \<Rightarrow>
          (case (if truthy (map_of argdict ''start'')
                 then py_int (the (map_of argdict ''start'')) else Inr 0) of
             Inl e \<Rightarrow> Inl e
           | Inr st \<Rightarrow>
               (case (if truthy (map_of argdict ''end'')
                      then map_sum id Some (py_int (the (map_of argdict ''end''))) else Inr None) of
                  Inl e \<Rightarrow> Inl e
                | Inr en \<Rightarrow>
                    Inr \<lparr>arg_src = the (map_of argdict ''src''), arg_start = st, arg_end = en,
                         arg_language = map_of argdict ''language''\<rparr>)))"

subsection \<open>The rest of \<^verbatim>\<open>thebe\<close>\<close>

text \<open>\<^verbatim>\<open>os.path.join\<close> of \<^verbatim>\<open>posixpath\<close>.\<close>

definition join_step :: "string \<Rightarrow> string \<Rightarrow> string" where
  "join_step path b =
     (if take 1 b = ''/'' then b
      else if path = [] \<or> last path = CHR ''/'' then path @ b
      else path @ ''/'' @ b)"

definition os_path_join :: "string \<Rightarrow> string list \<Rightarrow> string" where
  "os_path_join a p = foldl join_step a p"

definition not_found :: "string \<Rightarrow> error" where
  "not_found nb_path = ValueError (''File '' @ nb_path @ '' could not be found'')"

text \<open>
  What \<^verbatim>\<open>thebe\<close> hands to \<^verbatim>\<open>HTMLExporter\<close>: the configuration of
  \<^verbatim>\<open>CSSHTMLHeaderTransformer\<close> and of \<^verbatim>\<open>SubCell\<close>, the language bound into
  the \<^verbatim>\<open>highlight2html\<close> filter, the template and its search path.
\<close>

record exporter =
  highlight_class :: string
  subcell_start :: int
  subcell_end :: "int option"
  filter_language :: "string option"
  template_file :: string
  template_path :: "string list"

text \<open>
  The collaborators of \<^verbatim>\<open>thebe\<close>: the configuration of the preprocessor, the file
  system, \<^verbatim>\<open>IPython.nbformat.reads\<close>, \<^verbatim>\<open>exporter.from_notebook_node\<close> and the
  Markdown stash (with a state of its own).
\<close>

record ('nb, 'res, 'stash) world =
  NOTEBOOK_DIR :: string
  PLUGIN_PATHS :: "string list"
  path_exists :: "string \<Rightarrow> bool"
  read_file :: "string \<Rightarrow> error + string"
  nbformat_reads :: "string \<Rightarrow> error + 'nb"
  from_notebook_node :: "exporter \<Rightarrow> 'nb \<Rightarrow> error + (string \<times> 'res)"
  htmlStash_store :: "'stash \<Rightarrow> string \<Rightarrow> string \<times> 'stash"

definition thebe :: "('nb, 'res, 'stash) world \<Rightarrow> string \<Rightarrow> 'stash \<Rightarrow> (error + string) \<times> 'stash" where
  "thebe w markup stash =
     (case thebe_args markup of
        Inl e \<Rightarrow> (Inl e, stash)
      | Inr d \<Rightarrow>
          (let nb_dir = NOTEBOOK_DIR w;
               nb_path = os_path_join ''content'' [nb_dir, arg_src d]
           in if \<not> path_exists w nb_path then (Inl (not_found nb_path), stash)
              else
                (let ex = \<lparr>highlight_class = ''.highlight-ipynb'',
                           subcell_start = arg_start d, subcell_end = arg_end d,
                           filter_language = arg_language d,
                           template_file = ''liquid_tags/thebehtml_3.tplx'',
                           template_path = PLUGIN_PATHS w\<rparr>
                 in case read_file w nb_path of
                      Inl e \<Rightarrow> (Inl e, stash)
                    | Inr nb_text \<Rightarrow>
                        (case nbformat_reads w nb_text of
                           Inl e \<Rightarrow> (Inl e, stash)
                         | Inr nb_json \<Rightarrow>
                             (case from_notebook_node w ex nb_json of
                                Inl e \<Rightarrow> (Inl e, stash)
                              | Inr (body, resources) \<Rightarrow>
                                  (case htmlStash_store w stash body of
                                     (token, stash') \<Rightarrow> (Inr token, stash')))))))"

text \<open>
  A site whose only notebook is \<^verbatim>\<open>content/notebooks/other.ipynb\<close>, with
  collaborators that always succeed.
\<close>

definition example_world :: "(unit, unit, string list) world" where
  "example_world =
     \<lparr>NOTEBOOK_DIR = ''notebooks'', PLUGIN_PATHS = [''plugins''],
      path_exists = (\<lambda>p. p = ''content/notebooks/other.ipynb''),
      read_file = (\<lambda>p. Inr ''{}''), nbformat_reads = (\<lambda>t. Inr ()),
      from_notebook_node = (\<lambda>ex nb. Inr (''<div></div>'', ())),
      htmlStash_store = (\<lambda>st body. (''token'', body # st))\<rparr>"

subsection \<open>Python slicing\<close>

text \<open>
  \<^verbatim>\<open>xs[start:end]\<close> on a list, with either bound an integer or \<^verbatim>\<open>None\<close>:
  the bounds are adjusted to the length as \<^verbatim>\<open>PySlice_AdjustIndices\<close> does for step 1,
  and the items from the adjusted start up to the adjusted end are copied into a new list.
\<close>

definition adjust_index :: "int \<Rightarrow> int \<Rightarrow> int" where
  "adjust_index n i =
     (if i < 0 then (if i + n < 0 then 0 else i + n)
      else if i \<ge> n then n else i)"

definition py_slice :: "'a list \<Rightarrow> int option \<Rightarrow> int option \<Rightarrow> 'a list" where
  "py_slice xs start stop =
     (let n = int (length xs);
          ilow = (case start of None \<Rightarrow> 0 | Some i \<Rightarrow> adjust_index n i);
          ihigh = (case stop of None \<Rightarrow> n | Some j \<Rightarrow> adjust_index n j)
      in if ihigh - ilow \<le> 0 then []
         else map (\<lambda>k. xs ! (nat ilow + k)) [0..<nat (ihigh - ilow)])"

text \<open>
  \<^verbatim>\<open>slice(start, end).indices(n)\<close> and \<^verbatim>\<open>len(range(lo, hi, step))\<close> for a
  positive step, which the specification measures the selection with.
\<close>

definition clamp_index :: "int \<Rightarrow> int option \<Rightarrow> int \<Rightarrow> int" where
  "clamp_index n idx dflt =
     (case idx of
        None \<Rightarrow> dflt
      | Some i \<Rightarrow>
          (if i < 0 then (let i' = i + n in if i' < 0 then 0 else i')
           else if i > n then n else i))"

definition slice_indices :: "int option \<Rightarrow> int option \<Rightarrow> nat \<Rightarrow> int \<times> int \<times> int" where
  "slice_indices start stop n = (clamp_index (int n) start 0, clamp_index (int n) stop (int n), 1)"

fun range_len :: "int \<times> int \<times> int \<Rightarrow> nat" where
  "range_len (lo, hi, step) = (if lo < hi then nat ((hi - lo - 1) div step + 1) else 0)"

subsection \<open>The store of Python objects and \<^verbatim>\<open>SubCell.preprocess\<close>\<close>

text \<open>
  Notebook nodes, lists and dictionaries are mutable and shared by reference, so they live
  in a store, addressed by position; allocation appends. A notebook node has its document
  metadata and either \<^verbatim>\<open>cells\<close> (format 4) or \<^verbatim>\<open>worksheets\<close> (format 3); a
  worksheet has \<^verbatim>\<open>cells\<close>; a cell, the metadata and the resources are dictionaries.
\<close>

type_synonym addr = nat

datatype pyobj =
    Dict "(string \<times> string) list"
  | PyList "addr list"
  | Worksheet addr
  | NotebookNode "addr option" "addr option" addr

type_synonym heap = "pyobj list"

definition lookup :: "heap \<Rightarrow> addr \<Rightarrow> pyobj option" where
  "lookup h a = (if a < length h then Some (h ! a) else None)"

definition alloc :: "heap \<Rightarrow> pyobj \<Rightarrow> heap \<times> addr" where
  "alloc h ob = (h @ [ob], length h)"

text \<open>
  \<^verbatim>\<open>deepcopy\<close> of a notebook: every object it reaches is allocated anew, children
  first. \<open>None\<close> means the store does not hold a notebook of this shape at the address.
\<close>

definition copy_dict :: "heap \<Rightarrow> addr \<Rightarrow> (heap \<times> addr) option" where
  "copy_dict h a = (case lookup h a of Some (Dict kv) \<Rightarrow> Some (alloc h (Dict kv)) | _ \<Rightarrow> None)"

fun copy_each :: "(heap \<Rightarrow> addr \<Rightarrow> (heap \<times> addr) option) \<Rightarrow> heap \<Rightarrow> addr list \<Rightarrow> (heap \<times> addr list) option" where
  "copy_each f h [] = Some (h, [])"
| "copy_each f h (a # as) =
     (case f h a of
        None \<Rightarrow> None
      | Some (h1, a') \<Rightarrow>
          (case copy_each f h1 as of
             None \<Rightarrow> None
           | Some (h2, as') \<Rightarrow> Some (h2, a' # as')))"

definition copy_list :: "(heap \<Rightarrow> addr \<Rightarrow> (heap \<times> addr) option) \<Rightarrow> heap \<Rightarrow> addr \<Rightarrow> (heap \<times> addr) option" where
  "copy_list f h a =
     (case lookup h a of
        Some (PyList as) \<Rightarrow>
          (case copy_each f h as of
             None \<Rightarrow> None
           | Some (h1, as') \<Rightarrow> Some (alloc h1 (PyList as')))
      | _ \<Rightarrow> None)"

definition copy_worksheet :: "heap \<Rightarrow> addr \<Rightarrow> (heap \<times> addr) option" where
  "copy_worksheet h a =
     (case lookup h a of
        Some (Worksheet cl) \<Rightarrow>
          (case copy_list copy_dict h cl of
             None \<Rightarrow> None
           | Some (h1, cl') \<Rightarrow> Some (alloc h1 (Worksheet cl')))
      | _ \<Rightarrow> None)"

fun copy_opt :: "(heap \<Rightarrow> addr \<Rightarrow> (heap \<times> addr) option) \<Rightarrow> heap \<Rightarrow> addr option \<Rightarrow> (heap \<times> addr option) option" where
  "copy_opt f h None = Some (h, None)"
| "copy_opt f h (Some a) = (case f h a of None \<Rightarrow> None | Some (h1, a') \<Rightarrow> Some (h1, Some a'))"

definition deepcopy :: "heap \<Rightarrow> addr \<Rightarrow> (heap \<times> addr) option" where
  "deepcopy h nb =
     (case lookup h nb of
        Some (NotebookNode cells worksheets metadata) \<Rightarrow>
          (case copy_opt (copy_list copy_dict) h cells of
             None \<Rightarrow> None
           | Some (h1, cells') \<Rightarrow>
               (case copy_opt (copy_list copy_worksheet) h1 worksheets of
                  None \<Rightarrow> None
                | Some (h2, worksheets') \<Rightarrow>
                    (case copy_dict h2 metadata of
                       None \<Rightarrow> None
                     | Some (h3, metadata') \<Rightarrow>
                         Some (alloc h3 (NotebookNode cells' worksheets' metadata')))))
      | _ \<Rightarrow> None)"

text \<open>
  The loop over \<^verbatim>\<open>nbc.worksheets\<close>: \<^verbatim>\<open>worksheet.cells[:]\<close> makes a list,
  the slice of it another, which becomes the worksheet's \<^verbatim>\<open>cells\<close>.
\<close>

fun slice_worksheets :: "int option \<Rightarrow> int option \<Rightarrow> heap \<Rightarrow> addr list \<Rightarrow> heap option" where
  "slice_worksheets start stop h [] = Some h"
| "slice_worksheets start stop h (w # ws) =
     (case lookup h w of
        Some (Worksheet cl) \<Rightarrow>
          (case lookup h cl of
             Some (PyList as) \<Rightarrow>
               (let copy = py_slice as None None;
                    (h1, cells) = alloc h (PyList copy);
                    (h2, sliced) = alloc h1 (PyList (py_slice copy start stop))
                in slice_worksheets start stop (h2[w := Worksheet sliced]) ws)
           | _ \<Rightarrow> None)
      | _ \<Rightarrow> None)"

text \<open>
  \<^verbatim>\<open>SubCell.preprocess\<close> with the traits \<^verbatim>\<open>start\<close> and \<^verbatim>\<open>end\<close> of the
  preprocessor and the module's \<^verbatim>\<open>IPYTHON_VERSION\<close> as arguments. It returns the
  store it leaves and either the pair \<^verbatim>\<open>(nbc, resources)\<close> or the
  \<^verbatim>\<open>AttributeError\<close> of a node without the attribute read.
\<close>

definition preprocess ::
  "nat \<Rightarrow> int option \<Rightarrow> int option \<Rightarrow> heap \<Rightarrow> addr \<Rightarrow> addr \<Rightarrow> (heap \<times> (error + addr \<times> addr)) option" where
  "preprocess IPYTHON_VERSION start stop h nb resources =
     (case deepcopy h nb of
        None \<Rightarrow> None
      | Some (h1, nbc) \<Rightarrow>
          (case lookup h1 nbc of
             Some (NotebookNode cells worksheets metadata) \<Rightarrow>
               (if IPYTHON_VERSION < 3 then
                  (case worksheets of
                     None \<Rightarrow> Some (h1, Inl (AttributeError ''worksheets''))
                   | Some wl \<Rightarrow>
                       (case lookup h1 wl of
                          Some (PyList ws) \<Rightarrow>
                            (case slice_worksheets start stop h1 ws of
                               None \<Rightarrow> None
                             | Some h2 \<Rightarrow> Some (h2, Inr (nbc, resources)))
                        | _ \<Rightarrow> None))
                else
                  (case cells of
                     None \<Rightarrow> Some (h1, Inl (AttributeError ''cells''))
                   | Some cl \<Rightarrow>
                       (case lookup h1 cl of
                          Some (PyList as) \<Rightarrow>
                            (let (h2, sliced) = alloc h1 (PyList (py_slice as start stop))
                             in Some (h2[nbc := NotebookNode (Some sliced) worksheets metadata],
                                      Inr (nbc, resources)))
                        | _ \<Rightarrow> None)))
           | _ \<Rightarrow> None))"

text \<open>
  What a format 4 notebook at an address holds: the contents of its cells in order, its
  metadata, and the addresses of the objects it is made of.
\<close>

definition dict_at :: "heap \<Rightarrow> addr \<Rightarrow> (string \<times> string) list option" where
  "dict_at h a = (case lookup h a of Some (Dict kv) \<Rightarrow> Some kv | _ \<Rightarrow> None)"

fun those_dicts :: "heap \<Rightarrow> addr list \<Rightarrow> (string \<times> string) list list option" where
  "those_dicts h [] = Some []"
| "those_dicts h (a # as) =
     (case dict_at h a of
        None \<Rightarrow> None
      | Some kv \<Rightarrow> (case those_dicts h as of None \<Rightarrow> None | Some kvs \<Rightarrow> Some (kv # kvs)))"

definition cell_addrs :: "heap \<Rightarrow> addr \<Rightarrow> addr list option" where
  "cell_addrs h nb =
     (case lookup h nb of
        Some (NotebookNode (Some cl) None md) \<Rightarrow>
          (case lookup h cl of Some (PyList as) \<Rightarrow> Some as | _ \<Rightarrow> None)
      | _ \<Rightarrow> None)"

definition cells_of :: "heap \<Rightarrow> addr \<Rightarrow> (string \<times> string) list list option" where
  "cells_of h nb = (case cell_addrs h nb of None \<Rightarrow> None | Some as \<Rightarrow> those_dicts h as)"

definition metadata_of :: "heap \<Rightarrow> addr \<Rightarrow> (string \<times> string) list option" where
  "metadata_of h nb =
     (case lookup h nb of Some (NotebookNode cells worksheets md) \<Rightarrow> dict_at h md | _ \<Rightarrow> None)"

definition objects_of :: "heap \<Rightarrow> addr \<Rightarrow> addr list" where
  "objects_of h nb =
     (case lookup h nb of
        Some (NotebookNode (Some cl) None md) \<Rightarrow>
          nb # md # cl # (case lookup h cl of Some (PyList as) \<Rightarrow> as | _ \<Rightarrow> [])
      | _ \<Rightarrow> [])"

definition notebook4 :: "heap \<Rightarrow> addr \<Rightarrow> bool" where
  "notebook4 h nb \<longleftrightarrow> cells_of h nb \<noteq> None \<and> metadata_of h nb \<noteq> None"

text \<open>The cells of the notebook that \<^verbatim>\<open>preprocess\<close> returns.\<close>

definition selected_cells ::
  "nat \<Rightarrow> int option \<Rightarrow> int option \<Rightarrow> heap \<Rightarrow> addr \<Rightarrow> addr \<Rightarrow> (string \<times> string) list list option" where
  "selected_cells IPYTHON_VERSION start stop h nb resources =
     (case preprocess IPYTHON_VERSION start stop h nb resources of
        Some (h', Inr (nbc, r)) \<Rightarrow> cells_of h' nbc
      | _ \<Rightarrow> None)"

text \<open>
  A store with a notebook of three cells at address 5 and a resources dictionary at
  address 6.
\<close>

definition example_store :: heap where
  "example_store =
     [Dict [(''source'', ''a'')], Dict [(''source'', ''b'')], Dict [(''source'', ''c'')],
      PyList [0, 1, 2], Dict [(''kernel'', ''python'')], NotebookNode (Some 3) None 4,
      Dict [(''css'', ''x'')]]"

text \<open>
  The adjusted bounds of a slice, and the store \<^verbatim>\<open>preprocess\<close> leaves behind a store
  \<open>h\<close> for a notebook with cell contents \<open>cs\<close>, metadata \<open>md\<close> and selected cell
  addresses \<open>sel\<close>.
\<close>

definition low_of :: "'a list \<Rightarrow> int option \<Rightarrow> int" where
  "low_of xs start = (case start of None \<Rightarrow> 0 | Some i \<Rightarrow> adjust_index (int (length xs)) i)"

definition high_of :: "'a list \<Rightarrow> int option \<Rightarrow> int" where
  "high_of xs stop = (case stop of None \<Rightarrow> int (length xs) | Some j \<Rightarrow> adjust_index (int (length xs)) j)"

definition copied :: "heap \<Rightarrow> (string \<times> string) list list \<Rightarrow> (string \<times> string) list \<Rightarrow> addr list \<Rightarrow> heap" where
  "copied h cs md sel =
     h @ map Dict cs @
       [PyList [length h..<length h + length cs], Dict md,
        NotebookNode (Some (length h + length cs + 3)) None (length h + length cs + 1),
        PyList sel]"

subsection \<open>\<^verbatim>\<open>custom_highlighter\<close>\<close>

text \<open>
  \<^verbatim>\<open>_pygments_highlight\<close> of nbconvert is an argument: it gets the source, the
  formatter and the language, and returns markup or raises. The default of the
  \<^verbatim>\<open>language\<close> parameter is \<^verbatim>\<open>'ipython'\<close>; \<^verbatim>\<open>thebe\<close> always passes the
  group it parsed, which may be \<^verbatim>\<open>None\<close>. \<^verbatim>\<open>metadata\<close> is not used.
\<close>

record formatter =
  cssclass :: string

definition HtmlFormatter :: "string \<Rightarrow> formatter" where
  "HtmlFormatter c = \<lparr>cssclass = c\<rparr>"

definition custom_highlighter ::
  "(string \<Rightarrow> formatter \<Rightarrow> string \<Rightarrow> error + string) \<Rightarrow> string \<Rightarrow> string option \<Rightarrow> error + string" where
  "custom_highlighter pygments_highlight source language =
     (let formatter = HtmlFormatter ''highlight-ipynb'';
          language = (if \<not> truthy language then ''ipython'' else the language);
          output = pygments_highlight source formatter language
      in output)"

text \<open>
  What \<^verbatim>\<open>custom_highlighter\<close> relies on in the highlighter it calls: that the markup
  returned for a formatter has the attribute \<^verbatim>\<open>class="..."\<close> with the CSS class of
  that formatter, and that a lexer of a given name exists, so that the call returns markup.
\<close>

definition has_class :: "string \<Rightarrow> string \<Rightarrow> bool" where
  "has_class c html \<longleftrightarrow>
     (\<exists>pre post. html = pre @ ''class='' @ [CHR 0x22] @ c @ [CHR 0x22] @ post)"

definition honours_class :: "(string \<Rightarrow> formatter \<Rightarrow> string \<Rightarrow> error + string) \<Rightarrow> bool" where
  "honours_class hl \<longleftrightarrow> (\<forall>source f l out. hl source f l = Inr out \<longrightarrow> has_class (cssclass f) out)"

definition knows_lexer :: "(string \<Rightarrow> formatter \<Rightarrow> string \<Rightarrow> error + string) \<Rightarrow> string \<Rightarrow> bool" where
  "knows_lexer hl l \<longleftrightarrow> (\<forall>source f. \<exists>out. hl source f l = Inr out)"

text \<open>A highlighter that wraps the source in a division of the formatter's class.\<close>

definition example_highlighter :: "string \<Rightarrow> formatter \<Rightarrow> string \<Rightarrow> error + string" where
  "example_highlighter source f l =
     Inr (''<div class='' @ [CHR 0x22] @ cssclass f @ [CHR 0x22] @ ''><pre>'' @ l @ '':'' @ source
          @ ''</pre></div>'')"

subsection \<open>Directive strings as the grammar describes them\<close>

text \<open>
  The text of a directive built from its parts: a path, an optional clause
  \<^verbatim>\<open>cells[start:end]\<close> with each bound optional, an optional clause
  \<^verbatim>\<open>language[lang]\<close>, and the white space around and between them. A bound is a
  signed integer in decimal: an optional minus sign, any number of leading zeros, and the
  magnitude as \<^verbatim>\<open>str\<close> writes it (\<open>decimal i\<close> is how \<^verbatim>\<open>str\<close> writes \<open>i\<close>).
\<close>

fun show_nat :: "nat \<Rightarrow> string" where
  "show_nat n = (if n < 10 then [char_of (48 + n)]
                 else show_nat (n div 10) @ [char_of (48 + n mod 10)])"

declare show_nat.simps [simp del]

datatype bound = Bound bool nat nat

fun bound_text :: "bound \<Rightarrow> string" where
  "bound_text (Bound neg zeros n) =
     (if neg then ''-'' else []) @ replicate zeros (CHR ''0'') @ show_nat n"

fun bound_value :: "bound \<Rightarrow> int" where
  "bound_value (Bound neg zeros n) = (if neg then - int n else int n)"

definition decimal :: "int \<Rightarrow> bound" where
  "decimal i = Bound (i < 0) 0 (nat \<bar>i\<bar>)"

fun index_text :: "bound option \<Rightarrow> string" where
  "index_text None = []"
| "index_text (Some b) = bound_text b"

definition cells_clause :: "bound option \<times> bound option \<Rightarrow> string" where
  "cells_clause c = ''cells['' @ index_text (fst c) @ '':'' @ index_text (snd c) @ '']''"

definition language_clause :: "string \<Rightarrow> string" where
  "language_clause l = ''language['' @ l @ '']''"

definition directive_text ::
  "string \<Rightarrow> string \<Rightarrow> string \<Rightarrow> (bound option \<times> bound option) option \<Rightarrow> string \<Rightarrow> string option \<Rightarrow> string \<Rightarrow> string" where
  "directive_text lead path sep1 cells sep2 lang trail =
     lead @ path
       @ (case cells of None \<Rightarrow> [] | Some c \<Rightarrow> sep1 @ cells_clause c)
       @ (case lang of None \<Rightarrow> [] | Some l \<Rightarrow> sep2 @ language_clause l)
       @ trail"

text \<open>The directive such a string stands for, with the defaults of absent parts.\<close>

definition directive_of :: "string \<Rightarrow> (bound option \<times> bound option) option \<Rightarrow> string option \<Rightarrow> directive" where
  "directive_of path cells lang =
     \<lparr>arg_src = path,
      arg_start = (case cells of Some (Some a, _) \<Rightarrow> bound_value a | _ \<Rightarrow> 0),
      arg_end = (case cells of Some (_, Some b) \<Rightarrow> Some (bound_value b) | _ \<Rightarrow> None),
      arg_language = lang\<rparr>"

definition blank :: "string \<Rightarrow> bool" where
  "blank w \<longleftrightarrow> list_all is_space w"

definition path_ok :: "string \<Rightarrow> bool" where
  "path_ok path \<longleftrightarrow> path \<noteq> [] \<and> list_all (\<lambda>c. \<not> is_space c) path"

definition lang_ok :: "string option \<Rightarrow> bool" where
  "lang_ok lang \<longleftrightarrow> (case lang of None \<Rightarrow> True | Some l \<Rightarrow> list_all (in_class LangChar) l)"

text \<open>The strings \<^verbatim>\<open>-?[0-9]*\<close> matches.\<close>

definition signed_digits :: "string \<Rightarrow> bool" where
  "signed_digits a \<longleftrightarrow>
     list_all is_digit (case a of c # cs \<Rightarrow> if c = CHR ''-'' then cs else a | [] \<Rightarrow> [])"

subsection \<open>The grammar of directives\<close>

text \<open>
  The directive strings in the words of the specification, read as the code reads them: a
  path, which is any run of characters that are not white space; then optionally the clause
  \<^verbatim>\<open>cells[start:end]\<close>, each bound an optional minus sign followed by digits; then
  optionally the clause \<^verbatim>\<open>language[lang]\<close> with \<open>lang\<close> over \<^verbatim>\<open>[a-z0-9+-]\<close>;
  with white space, possibly none, before, between and after the parts.
\<close>

definition cells_text :: "string \<Rightarrow> bool" where
  "cells_text C \<longleftrightarrow>
     (\<exists>a b. signed_digits a \<and> signed_digits b \<and> C = ''cells['' @ a @ '':'' @ b @ '']'')"

definition language_text :: "string \<Rightarrow> bool" where
  "language_text L \<longleftrightarrow> (\<exists>l. list_all (in_class LangChar) l \<and> L = ''language['' @ l @ '']'')"

definition directive_grammar :: "string \<Rightarrow> bool" where
  "directive_grammar s \<longleftrightarrow>
     (\<exists>lead path w1 C w2 L w3.
        s = lead @ path @ w1 @ C @ w2 @ L @ w3
        \<and> blank lead \<and> path_ok path \<and> blank w1 \<and> blank w2 \<and> blank w3
        \<and> (C = [] \<or> cells_text C) \<and> (L = [] \<or> language_text L))"

text \<open>
  What a pattern matches, without the order of the attempts: \<open>sem r i u s'\<close> says that
  \<open>r\<close> can match the text \<open>u\<close> at position \<open>i\<close> when \<open>s'\<close> follows.
\<close>

fun sem :: "regex \<Rightarrow> nat \<Rightarrow> string \<Rightarrow> string \<Rightarrow> bool" where
  "sem Bol i u s' = (u = [] \<and> i = 0)"
| "sem Eol i u s' = (u = [] \<and> (s' = [] \<or> s' = [CHR 0x0A]))"
| "sem (Lit t) i u s' = (u = t)"
| "sem (Plus cl) i u s' = (u \<noteq> [] \<and> list_all (in_class cl) u)"
| "sem (Star cl) i u s' = list_all (in_class cl) u"
| "sem (Opt r) i u s' = (u = [] \<or> sem r i u s')"
| "sem (Seq r1 r2) i u s' =
     (\<exists>u1 u2. u = u1 @ u2 \<and> sem r1 i u1 (u2 @ s') \<and> sem r2 (i + length u1) u2 s')"
| "sem (Group r) i u s' = sem r i u s'"
| "sem (Named n r) i u s' = sem r i u s'"

subsection \<open>Reasoning about the first match\<close>

text \<open>
  \<open>first_is r st y\<close>: the first way \<open>r\<close> matches at \<open>st\<close> ends in \<open>y\<close>;
  \<open>steps\<close> is the same wherever the match starts.
\<close>

definition first_is :: "regex \<Rightarrow> mstate \<Rightarrow> mstate \<Rightarrow> bool" where
  "first_is r st y \<longleftrightarrow> (\<exists>ys. rmatch r st = y # ys)"

definition steps ::
  "regex \<Rightarrow> string \<times> (string \<times> string) list \<Rightarrow> string \<times> (string \<times> string) list \<Rightarrow> bool" where
  "steps r a b \<longleftrightarrow> (\<forall>i. \<exists>j. first_is r (i, fst a, snd a) (j, fst b, snd b))"

text \<open>
  The characters a pattern can consume, and \<open>leads r P Q\<close>: from a subject whose rest
  satisfies \<open>P\<close>, every way \<open>r\<close> matches leaves a rest that satisfies \<open>Q\<close>.
\<close>

fun alphabet :: "regex \<Rightarrow> char set" where
  "alphabet Bol = {}"
| "alphabet Eol = {}"
| "alphabet (Lit t) = set t"
| "alphabet (Plus cl) = {c. in_class cl c}"
| "alphabet (Star cl) = {c. in_class cl c}"
| "alphabet (Opt r) = alphabet r"
| "alphabet (Seq r1 r2) = alphabet r1 \<union> alphabet r2"
| "alphabet (Group r) = alphabet r"
| "alphabet (Named n r) = alphabet r"

definition leads :: "regex \<Rightarrow> (string \<Rightarrow> bool) \<Rightarrow> (string \<Rightarrow> bool) \<Rightarrow> bool" where
  "leads r P Q \<longleftrightarrow> (\<forall>i s g. P s \<longrightarrow> (\<forall>y\<in>set (rmatch r (i, s, g)). Q (fst (snd y))))"

text \<open>The rest of the subject still ends in \<open>Z\<close>; and \<open>Z\<close> is all of it or follows white space.\<close>

definition tail_at :: "string \<Rightarrow> string \<Rightarrow> bool" where
  "tail_at Z t \<longleftrightarrow> (\<exists>x. t = x @ Z)"

definition tail_after_space :: "string \<Rightarrow> string \<Rightarrow> bool" where
  "tail_after_space Z t \<longleftrightarrow> (\<exists>x. t = x @ Z \<and> (x = [] \<or> is_space (last x)))"

section \<open>Properties\<close>

subsection \<open>The first match of FORMAT\<close>

lemma first_is_Seq: "first_is r1 st x \<Longrightarrow> first_is r2 x y \<Longrightarrow> first_is (Seq r1 r2) st y"
  by (auto simp: first_is_def)

lemma first_is_Opt: "first_is r st x \<Longrightarrow> first_is (Opt r) st x"
  by (auto simp: first_is_def)

lemma first_is_Opt_skip: "rmatch r st = [] \<Longrightarrow> first_is (Opt r) st st"
  by (auto simp: first_is_def)

lemma first_is_Group: "first_is r st x \<Longrightarrow> first_is (Group r) st x"
  by (auto simp: first_is_def)

lemma first_is_Named:
  "first_is r (i, u @ s, g) (i + length u, s, g') \<Longrightarrow>
   first_is (Named n r) (i, u @ s, g) (i + length u, s, (n, u) # g')"
  by (auto simp: first_is_def)

lemma first_is_Lit: "first_is (Lit t) (i, t @ s, g) (i + length t, s, g)"
  by (auto simp: first_is_def)

lemma first_is_Bol: "first_is Bol (0, s, g) (0, s, g)"
  by (auto simp: first_is_def)

lemma first_is_Eol: "first_is Eol (i, [], g) (i, [], g)"
  by (auto simp: first_is_def)

lemma takeWhile_block:
  "\<forall>c\<in>set u. P c \<Longrightarrow> s = [] \<or> \<not> P (hd s) \<Longrightarrow> takeWhile P (u @ s) = u"
  by (cases s) (auto simp: takeWhile_append2 takeWhile_eq_all_conv)

lemma greedy_first:
  assumes "\<forall>c\<in>set u. in_class cl c" "s = [] \<or> \<not> in_class cl (hd s)" "lo \<le> length u"
  shows "\<exists>ys. greedy lo cl (i, u @ s, g) = (i + length u, s, g) # ys"
proof -
  have "takeWhile (in_class cl) (u @ s) = u" using assms by (intro takeWhile_block) auto
  moreover have "rev [lo..<Suc (length u)] = length u # rev [lo..<length u]"
    using assms(3) by simp
  ultimately show ?thesis using assms(3) by (simp add: greedy_def)
qed

lemma greedy_none:
  "s = [] \<or> \<not> in_class cl (hd s) \<Longrightarrow> greedy (Suc 0) cl (i, s, g) = []"
  by (cases s) (auto simp: greedy_def)

lemma first_is_Plus:
  "u \<noteq> [] \<Longrightarrow> \<forall>c\<in>set u. in_class cl c \<Longrightarrow> s = [] \<or> \<not> in_class cl (hd s) \<Longrightarrow>
   first_is (Plus cl) (i, u @ s, g) (i + length u, s, g)"
  using greedy_first [of u cl s 1 i g] by (cases u) (auto simp: first_is_def)

lemma first_is_Star:
  "\<forall>c\<in>set u. in_class cl c \<Longrightarrow> s = [] \<or> \<not> in_class cl (hd s) \<Longrightarrow>
   first_is (Star cl) (i, u @ s, g) (i + length u, s, g)"
  using greedy_first [of u cl s 0 i g] by (auto simp: first_is_def)

lemma first_is_opt_ws:
  assumes "\<forall>c\<in>set w. is_space c" "s = [] \<or> \<not> is_space (hd s)"
  shows "first_is (Opt (Group (Plus Space))) (i, w @ s, g) (i + length w, s, g)"
proof (cases "w = []")
  case True
  then show ?thesis using assms(2) first_is_Opt_skip [of "Group (Plus Space)" "(i, s, g)"]
    by (simp add: greedy_none)
next
  case False
  then show ?thesis using assms
    by (intro first_is_Opt first_is_Group first_is_Plus) auto
qed


lemma FORMAT_unfold:
  "FORMAT = Seq Bol (Seq (Opt (Group (Plus Space))) (Seq (Named ''src'' (Plus NonSpace))
     (Seq (Opt (Group (Plus Space))) (Seq (Opt cells_re) (Seq (Opt (Group (Plus Space)))
     (Seq (Opt language_re) (Seq (Opt (Group (Plus Space))) (Seq Eol (Lit [])))))))))"
  by (simp add: FORMAT_def cells_re_def language_re_def)

lemma first_is_signed:
  assumes "signed_digits a" "\<not> is_digit c" "c \<noteq> CHR ''-''"
  shows "first_is (Seq (Opt (Lit ''-'')) (Star Digit)) (i, a @ [c] @ s, g) (i + length a, [c] @ s, g)"
proof (cases "\<exists>ds. a = CHR ''-'' # ds")
  case True
  then obtain ds where a: "a = CHR ''-'' # ds" by blast
  with assms(1) have ds: "\<forall>x\<in>set ds. in_class Digit x"
    by (simp add: signed_digits_def list_all_iff)
  have 1: "first_is (Opt (Lit ''-'')) (i, ''-'' @ ds @ [c] @ s, g) (i + length ''-'', ds @ [c] @ s, g)"
    by (rule first_is_Opt, rule first_is_Lit)
  have 2: "first_is (Star Digit) (i + length ''-'', ds @ [c] @ s, g) (i + length ''-'' + length ds, [c] @ s, g)"
    by (rule first_is_Star) (use ds assms(2) in auto)
  from first_is_Seq [OF 1 2] show ?thesis by (simp add: a)
next
  case False
  with assms(1) have ds: "\<forall>x\<in>set a. in_class Digit x"
    by (cases a) (auto simp: signed_digits_def list_all_iff)
  have "take (Suc 0) (a @ [c] @ s) \<noteq> ''-''"
    using False assms(3) by (cases a) auto
  then have 1: "first_is (Opt (Lit ''-'')) (i, a @ [c] @ s, g) (i, a @ [c] @ s, g)"
    by (intro first_is_Opt_skip) simp
  have 2: "first_is (Star Digit) (i, a @ [c] @ s, g) (i + length a, [c] @ s, g)"
    by (rule first_is_Star) (use ds assms(2) in auto)
  from first_is_Seq [OF 1 2] show ?thesis .
qed

lemma first_is_lang:
  assumes "list_all (in_class LangChar) l"
  shows "first_is (Seq (Opt (Lit ''-'')) (Star LangChar)) (i, l @ '']'' @ s, g) (i + length l, '']'' @ s, g)"
proof (cases "\<exists>ds. l = CHR ''-'' # ds")
  case True
  then obtain ds where a: "l = CHR ''-'' # ds" by blast
  with assms(1) have ds: "\<forall>x\<in>set ds. in_class LangChar x"
    by (simp add: list_all_iff)
  have nb: "\<not> in_class LangChar (CHR '']'')"
    by (simp add: is_lower_def is_digit_def)
  have 1: "first_is (Opt (Lit ''-'')) (i, ''-'' @ ds @ '']'' @ s, g) (i + length ''-'', ds @ '']'' @ s, g)"
    by (rule first_is_Opt, rule first_is_Lit)
  have 2: "first_is (Star LangChar) (i + length ''-'', ds @ '']'' @ s, g) (i + length ''-'' + length ds, '']'' @ s, g)"
    by (rule first_is_Star) (use ds nb in auto)
  from first_is_Seq [OF 1 2] show ?thesis by (simp add: a)
next
  case False
  from assms(1) have ds: "\<forall>x\<in>set l. in_class LangChar x"
    by (simp add: list_all_iff)
  have nb: "\<not> in_class LangChar (CHR '']'')"
    by (simp add: is_lower_def is_digit_def)
  have "take (Suc 0) (l @ '']'' @ s) \<noteq> ''-''"
    using False by (cases l) auto
  then have 1: "first_is (Opt (Lit ''-'')) (i, l @ '']'' @ s, g) (i, l @ '']'' @ s, g)"
    by (intro first_is_Opt_skip) simp
  have 2: "first_is (Star LangChar) (i, l @ '']'' @ s, g) (i + length l, '']'' @ s, g)"
    by (rule first_is_Star) (use ds nb in auto)
  from first_is_Seq [OF 1 2] show ?thesis .
qed

lemma first_is_cells:
  assumes "signed_digits a" "signed_digits b"
  shows "\<exists>j. first_is cells_re (i, ''cells['' @ a @ '':'' @ b @ '']'' @ s, g)
           (j, s, (''end'', b) # (''start'', a) # g)"
proof -
  have nd: "\<not> is_digit (CHR '':'')" "\<not> is_digit (CHR '']'')"
    by (simp_all add: is_digit_def)
  have 1: "first_is (Group (Lit ''cells['')) (i, ''cells['' @ a @ '':'' @ b @ '']'' @ s, g)
             (i + length ''cells['', a @ '':'' @ b @ '']'' @ s, g)"
    by (rule first_is_Group, rule first_is_Lit)
  have 2: "first_is (Named ''start'' (Seq (Opt (Lit ''-'')) (Star Digit)))
             (i + length ''cells['', a @ '':'' @ b @ '']'' @ s, g)
             (i + length ''cells['' + length a, '':'' @ b @ '']'' @ s, (''start'', a) # g)"
    by (rule first_is_Named) (rule first_is_signed [OF assms(1) nd(1)], simp)
  have 3: "first_is (Lit '':'')
             (i + length ''cells['' + length a, '':'' @ b @ '']'' @ s, (''start'', a) # g)
             (i + length ''cells['' + length a + length '':'', b @ '']'' @ s, (''start'', a) # g)"
    by (rule first_is_Lit)
  have 4: "first_is (Named ''end'' (Seq (Opt (Lit ''-'')) (Star Digit)))
             (i + length ''cells['' + length a + length '':'', b @ '']'' @ s, (''start'', a) # g)
             (i + length ''cells['' + length a + length '':'' + length b, '']'' @ s,
              (''end'', b) # (''start'', a) # g)"
    by (rule first_is_Named) (rule first_is_signed [OF assms(2) nd(2)], simp)
  have 5: "first_is (Group (Lit '']''))
             (i + length ''cells['' + length a + length '':'' + length b, '']'' @ s,
              (''end'', b) # (''start'', a) # g)
             (i + length ''cells['' + length a + length '':'' + length b + length '']'', s,
              (''end'', b) # (''start'', a) # g)"
    by (rule first_is_Group, rule first_is_Lit)
  have 6: "first_is (Lit []) x x" for x :: mstate
    by (cases x) (simp add: first_is_def)
  show ?thesis
    unfolding cells_re_def seqs.simps
    by (rule exI, rule first_is_Group, rule first_is_Seq [OF 1], rule first_is_Seq [OF 2],
        rule first_is_Seq [OF 3], rule first_is_Seq [OF 4], rule first_is_Seq [OF 5], rule 6)
qed

lemma first_is_language:
  assumes "list_all (in_class LangChar) l"
  shows "\<exists>j. first_is language_re (i, ''language['' @ l @ '']'' @ s, g) (j, s, (''language'', l) # g)"
proof -
  have 1: "first_is (Group (Lit ''language['')) (i, ''language['' @ l @ '']'' @ s, g)
             (i + length ''language['', l @ '']'' @ s, g)"
    by (rule first_is_Group, rule first_is_Lit)
  have 2: "first_is (Named ''language'' (Seq (Opt (Lit ''-'')) (Star LangChar)))
             (i + length ''language['', l @ '']'' @ s, g)
             (i + length ''language['' + length l, '']'' @ s, (''language'', l) # g)"
    by (rule first_is_Named) (rule first_is_lang [OF assms])
  have 3: "first_is (Group (Lit '']''))
             (i + length ''language['' + length l, '']'' @ s, (''language'', l) # g)
             (i + length ''language['' + length l + length '']'', s, (''language'', l) # g)"
    by (rule first_is_Group, rule first_is_Lit)
  have 6: "first_is (Lit []) x x" for x :: mstate
    by (cases x) (simp add: first_is_def)
  show ?thesis
    unfolding language_re_def seqs.simps
    by (rule exI, rule first_is_Group, rule first_is_Seq [OF 1], rule first_is_Seq [OF 2],
        rule first_is_Seq [OF 3], rule 6)
qed

lemma cells_re_none: "take (length ''cells['') s \<noteq> ''cells['' \<Longrightarrow> rmatch cells_re (i, s, g) = []"
  by (simp add: cells_re_def)

lemma language_re_none: "take (length ''language['') s \<noteq> ''language['' \<Longrightarrow> rmatch language_re (i, s, g) = []"
  by (simp add: language_re_def)


lemma steps_Seq: "steps r1 a b \<Longrightarrow> steps r2 b c \<Longrightarrow> steps (Seq r1 r2) a c"
  unfolding steps_def by (meson first_is_Seq)

lemma steps_opt_ws:
  assumes "\<forall>c\<in>set w. is_space c" "s = [] \<or> \<not> is_space (hd s)"
  shows "steps (Opt (Group (Plus Space))) (w @ s, g) (s, g)"
  unfolding steps_def using first_is_opt_ws [OF assms] by auto

lemma steps_src:
  assumes "path \<noteq> []" "\<forall>c\<in>set path. \<not> is_space c" "s = [] \<or> is_space (hd s)"
  shows "steps (Named ''src'' (Plus NonSpace)) (path @ s, g) (s, (''src'', path) # g)"
proof -
  have "first_is (Named ''src'' (Plus NonSpace)) (i, path @ s, g) (i + length path, s, (''src'', path) # g)" for i
    by (rule first_is_Named, rule first_is_Plus) (use assms in auto)
  then show ?thesis unfolding steps_def by auto
qed

lemma steps_opt_cells:
  assumes "signed_digits a" "signed_digits b"
  shows "steps (Opt cells_re) (''cells['' @ a @ '':'' @ b @ '']'' @ s, g) (s, (''end'', b) # (''start'', a) # g)"
  unfolding steps_def using first_is_cells [OF assms] first_is_Opt by fastforce

lemma steps_opt_cells_skip:
  assumes "take (length ''cells['') s \<noteq> ''cells[''"
  shows "steps (Opt cells_re) (s, g) (s, g)"
  unfolding steps_def using first_is_Opt_skip [OF cells_re_none [OF assms]] by auto

lemma steps_opt_language:
  assumes "list_all (in_class LangChar) l"
  shows "steps (Opt language_re) (''language['' @ l @ '']'' @ s, g) (s, (''language'', l) # g)"
  unfolding steps_def using first_is_language [OF assms] first_is_Opt by fastforce

lemma steps_opt_language_skip:
  assumes "take (length ''language['') s \<noteq> ''language[''"
  shows "steps (Opt language_re) (s, g) (s, g)"
  unfolding steps_def using first_is_Opt_skip [OF language_re_none [OF assms]] by auto

lemma steps_Eol: "steps (Seq Eol (Lit [])) ([], g) ([], g)"
  by (simp add: steps_def first_is_def)

lemma FORMAT_Bol: "i \<noteq> 0 \<Longrightarrow> rmatch FORMAT (i, s, g) = []"
  by (simp add: FORMAT_def)

lemma first_match_none:
  "\<forall>i\<in>set ps. rmatch r (i, drop i s, []) = [] \<Longrightarrow> first_match r s ps = None"
  by (induction ps) auto

lemma search_FORMAT:
  "search FORMAT s = (case rmatch FORMAT (0, s, []) of [] \<Rightarrow> None | (j, s', g) # _ \<Rightarrow> Some g)"
proof -
  have a: "[0..<Suc (length s)] = 0 # [Suc 0..<Suc (length s)]"
    by (rule upt_conv_Cons) simp
  have b: "first_match FORMAT s [Suc 0..<Suc (length s)] = None"
    by (rule first_match_none) (auto intro: FORMAT_Bol)
  show ?thesis
    by (simp only: search_def a first_match.simps b drop_0)
qed

lemma search_steps:
  assumes "steps (Seq (Opt (Group (Plus Space))) (Seq (Named ''src'' (Plus NonSpace))
     (Seq (Opt (Group (Plus Space))) (Seq (Opt cells_re) (Seq (Opt (Group (Plus Space)))
     (Seq (Opt language_re) (Seq (Opt (Group (Plus Space))) (Seq Eol (Lit [])))))))))
     (s, []) ([], G)"
  shows "search FORMAT s = Some G"
proof -
  from assms obtain j where "first_is (Seq (Opt (Group (Plus Space))) (Seq (Named ''src'' (Plus NonSpace))
     (Seq (Opt (Group (Plus Space))) (Seq (Opt cells_re) (Seq (Opt (Group (Plus Space)))
     (Seq (Opt language_re) (Seq (Opt (Group (Plus Space))) (Seq Eol (Lit [])))))))))
     (0, s, []) (j, [], G)"
    unfolding steps_def by fastforce
  with first_is_Bol [of s "[]"] have "first_is FORMAT (0, s, []) (j, [], G)"
    unfolding FORMAT_unfold by (rule first_is_Seq)
  then show ?thesis
    by (auto simp: search_FORMAT first_is_def)
qed

lemma search_shape:
  assumes lead: "\<forall>c\<in>set lead. is_space c"
    and path: "path \<noteq> []" "\<forall>c\<in>set path. \<not> is_space c"
    and ws: "\<forall>c\<in>set w1. is_space c" "\<forall>c\<in>set w2. is_space c" "\<forall>c\<in>set w3. is_space c"
    and sep: "w1 = [] \<longrightarrow> C = [] \<and> L = []"
    and C: "(C = [] \<and> gc = [] \<and> w2 = []) \<or>
            (\<exists>a b. signed_digits a \<and> signed_digits b \<and> C = ''cells['' @ a @ '':'' @ b @ '']''
               \<and> gc = [(''end'', b), (''start'', a)])"
    and L: "(L = [] \<and> gl = [] \<and> w3 = []) \<or>
            (\<exists>l. list_all (in_class LangChar) l \<and> L = ''language['' @ l @ '']''
               \<and> gl = [(''language'', l)])"
  shows "search FORMAT (lead @ path @ w1 @ C @ w2 @ L @ w3) = Some (gl @ gc @ [(''src'', path)])"
proof -
  have nsp: "\<not> is_space (CHR ''c'')" "\<not> is_space (CHR ''l'')"
    by (simp_all add: is_space_def)
  have C0: "C = [] \<or> (C \<noteq> [] \<and> hd C = CHR ''c'')" using C by auto
  have L0: "L = [] \<or> (L \<noteq> [] \<and> hd L = CHR ''l'')" using L by auto
  have 1: "steps (Opt (Group (Plus Space))) (lead @ path @ w1 @ C @ w2 @ L @ w3, []) (path @ w1 @ C @ w2 @ L @ w3, [])"
    by (rule steps_opt_ws [OF lead]) (use path in \<open>cases path; simp\<close>)
  have 2: "steps (Named ''src'' (Plus NonSpace)) (path @ w1 @ C @ w2 @ L @ w3, [])
             (w1 @ C @ w2 @ L @ w3, [(''src'', path)])"
  proof (rule steps_src [OF path])
    show "w1 @ C @ w2 @ L @ w3 = [] \<or> is_space (hd (w1 @ C @ w2 @ L @ w3))"
      using sep ws(1) C L by (cases w1) auto
  qed
  have 3: "steps (Opt (Group (Plus Space))) (w1 @ C @ w2 @ L @ w3, [(''src'', path)])
             (C @ w2 @ L @ w3, [(''src'', path)])"
  proof (rule steps_opt_ws [OF ws(1)])
    show "C @ w2 @ L @ w3 = [] \<or> \<not> is_space (hd (C @ w2 @ L @ w3))"
      using C0 L0 C L nsp by auto
  qed
  have 4: "steps (Opt cells_re) (C @ w2 @ L @ w3, [(''src'', path)])
             (w2 @ L @ w3, gc @ [(''src'', path)])"
  proof (cases "C = []")
    case True
    then have e: "gc = []" "w2 = []" using C by auto
    have "take (length ''cells['') (L @ w3) \<noteq> ''cells[''" using L by auto
    from steps_opt_cells_skip [OF this] show ?thesis by (simp add: True e)
  next
    case False
    then obtain a b where ab: "signed_digits a" "signed_digits b" "C = ''cells['' @ a @ '':'' @ b @ '']''"
      "gc = [(''end'', b), (''start'', a)]" using C by auto
    from steps_opt_cells [OF ab(1,2), of "w2 @ L @ w3" "[(''src'', path)]"] show ?thesis
      by (simp add: ab)
  qed
  have 5: "steps (Opt (Group (Plus Space))) (w2 @ L @ w3, gc @ [(''src'', path)])
             (L @ w3, gc @ [(''src'', path)])"
  proof (rule steps_opt_ws [OF ws(2)])
    show "L @ w3 = [] \<or> \<not> is_space (hd (L @ w3))"
      using L0 L nsp by auto
  qed
  have 6: "steps (Opt language_re) (L @ w3, gc @ [(''src'', path)])
             (w3 @ [], gl @ gc @ [(''src'', path)])"
  proof (cases "L = []")
    case True
    then have e: "gl = []" "w3 = []" using L by auto
    have "take (length ''language['') [] \<noteq> ''language[''" by simp
    from steps_opt_language_skip [OF this] show ?thesis by (simp add: True e)
  next
    case False
    then obtain l where l: "list_all (in_class LangChar) l" "L = ''language['' @ l @ '']''"
      "gl = [(''language'', l)]" using L by auto
    from steps_opt_language [OF l(1), of "w3" "gc @ [(''src'', path)]"] show ?thesis
      by (simp add: l)
  qed
  have 7: "steps (Opt (Group (Plus Space))) (w3 @ [], gl @ gc @ [(''src'', path)])
             ([], gl @ gc @ [(''src'', path)])"
    by (rule steps_opt_ws [OF ws(3)]) simp
  show ?thesis
    by (rule search_steps, rule steps_Seq [OF 1], rule steps_Seq [OF 2], rule steps_Seq [OF 3],
        rule steps_Seq [OF 4], rule steps_Seq [OF 5], rule steps_Seq [OF 6], rule steps_Seq [OF 7],
        rule steps_Eol)
qed

text \<open>The group \<^verbatim>\<open>src\<close> takes part in every match of \<^verbatim>\<open>FORMAT\<close>.\<close>

lemma rmatch_keeps:
  "(j, s', g') \<in> set (rmatch r (i, s, g)) \<Longrightarrow> map_of g n \<noteq> None \<Longrightarrow> map_of g' n \<noteq> None"
proof (induction r arbitrary: i s g j s' g')
  case (Seq r1 r2)
  from Seq.prems(1) obtain x where x: "x \<in> set (rmatch r1 (i, s, g))" "(j, s', g') \<in> set (rmatch r2 x)"
    by auto
  obtain k t h where xe: "x = (k, t, h)" by (cases x)
  from Seq.IH(1) [of k t h i s g] x(1) xe Seq.prems(2) have "map_of h n \<noteq> None" by simp
  from Seq.IH(2) [of j s' g' k t h] x(2) xe this show ?case by simp
next
  case (Named m r)
  then obtain g0 where g0: "(j, s', g0) \<in> set (rmatch r (i, s, g))" "g' = (m, take (j - i) s) # g0"
    by auto
  from Named.IH [OF g0(1) Named.prems(2)] g0(2) show ?case by simp
qed (auto simp: greedy_def split: if_splits)

lemma rmatch_Named_sets:
  "(j, s', g') \<in> set (rmatch (Named n r) (i, s, g)) \<Longrightarrow> map_of g' n \<noteq> None"
  by auto

lemma rmatch_SeqD:
  "y \<in> set (rmatch (Seq r1 r2) st) \<Longrightarrow> \<exists>x\<in>set (rmatch r1 st). y \<in> set (rmatch r2 x)"
  by simp

lemma search_src:
  assumes "search FORMAT s = Some g"
  shows "\<exists>p. map_of g ''src'' = Some p"
proof -
  from assms obtain j s' where y: "(j, s', g) \<in> set (rmatch FORMAT (0, s, []))"
    by (auto simp: search_FORMAT split: list.splits)
  from rmatch_SeqD [OF y [unfolded FORMAT_unfold]] obtain x1 where
    x1: "(j, s', g) \<in> set (rmatch (Seq (Opt (Group (Plus Space))) (Seq (Named ''src'' (Plus NonSpace))
     (Seq (Opt (Group (Plus Space))) (Seq (Opt cells_re) (Seq (Opt (Group (Plus Space)))
     (Seq (Opt language_re) (Seq (Opt (Group (Plus Space))) (Seq Eol (Lit [])))))))))  x1)"
    by blast
  from rmatch_SeqD [OF x1] obtain x2 where
    x2: "(j, s', g) \<in> set (rmatch (Seq (Named ''src'' (Plus NonSpace))
     (Seq (Opt (Group (Plus Space))) (Seq (Opt cells_re) (Seq (Opt (Group (Plus Space)))
     (Seq (Opt language_re) (Seq (Opt (Group (Plus Space))) (Seq Eol (Lit [])))))))) x2)"
    by blast
  from rmatch_SeqD [OF x2] obtain x3 where x3: "x3 \<in> set (rmatch (Named ''src'' (Plus NonSpace)) x2)"
    "(j, s', g) \<in> set (rmatch (Seq (Opt (Group (Plus Space))) (Seq (Opt cells_re) (Seq (Opt (Group (Plus Space)))
     (Seq (Opt language_re) (Seq (Opt (Group (Plus Space))) (Seq Eol (Lit []))))))) x3)"
    by blast
  obtain i2 t2 g2 where x2e: "x2 = (i2, t2, g2)" by (cases x2)
  obtain i3 t3 g3 where x3e: "x3 = (i3, t3, g3)" by (cases x3)
  from x3(1) have "map_of g3 ''src'' \<noteq> None"
    unfolding x2e x3e by (rule rmatch_Named_sets)
  from rmatch_keeps [OF x3(2) [unfolded x3e] this] show ?thesis by auto
qed

subsection \<open>Decimal text and \<^verbatim>\<open>int\<close>\<close>

lemma is_digit_char_of: "(d::nat) < 10 \<Longrightarrow> is_digit (char_of (48 + d))"
  by (simp add: is_digit_def)

lemma digit_val_char_of: "(d::nat) < 10 \<Longrightarrow> digit_val (char_of (48 + d)) = int d"
  by (simp add: digit_val_def)

lemma show_nat_digits: "list_all is_digit (show_nat n)"
proof (induction n rule: show_nat.induct)
  case (1 n)
  then show ?case
    by (subst show_nat.simps) (simp add: is_digit_char_of)
qed

lemma show_nat_nonempty: "show_nat n \<noteq> []"
  by (subst show_nat.simps) simp

lemma digits_val_snoc: "digits_val (ds @ [c]) = 10 * digits_val ds + digit_val c"
  by (simp add: digits_val_def)

lemma digits_val_show_nat: "digits_val (show_nat n) = int n"
proof (induction n rule: show_nat.induct)
  case (1 n)
  show ?case
  proof (cases "n < 10")
    case True
    then show ?thesis
      by (subst show_nat.simps) (simp add: digits_val_def digit_val_char_of)
  next
    case False
    with 1 have "digits_val (show_nat (n div 10)) = int (n div 10)" by simp
    with False show ?thesis
      by (subst show_nat.simps) (simp add: digits_val_snoc digit_val_char_of zdiv_int zmod_int)
  qed
qed

lemma is_digit_not_sign: "is_digit c \<Longrightarrow> c \<noteq> CHR ''-'' \<and> c \<noteq> CHR ''+''"
  by (auto simp: is_digit_def)

lemma show_nat_hd: "\<exists>c cs. show_nat n = c # cs \<and> c \<noteq> CHR ''-'' \<and> c \<noteq> CHR ''+''"
proof -
  obtain c cs where e: "show_nat n = c # cs"
    using show_nat_nonempty [of n] by (cases "show_nat n") auto
  with show_nat_digits [of n] have "is_digit c" by simp
  with e show ?thesis using is_digit_not_sign by blast
qed

lemma digits_val_zeros: "digits_val (replicate z (CHR ''0'') @ ds) = digits_val ds"
proof -
  have "foldl (\<lambda>a c. 10 * a + digit_val c) 0 (replicate z (CHR ''0'')) = 0"
    by (induction z) (simp_all add: digit_val_def)
  then show ?thesis by (simp add: digits_val_def)
qed

lemma bound_digits:
  "list_all is_digit (replicate z (CHR ''0'') @ show_nat n)"
  "replicate z (CHR ''0'') @ show_nat n \<noteq> []"
  "digits_val (replicate z (CHR ''0'') @ show_nat n) = int n"
proof -
  have "is_digit (CHR ''0'')" by (simp add: is_digit_def)
  then have "list_all is_digit (replicate z (CHR ''0''))" by (simp add: list_all_iff)
  then show "list_all is_digit (replicate z (CHR ''0'') @ show_nat n)"
    using show_nat_digits [of n] by simp
  show "replicate z (CHR ''0'') @ show_nat n \<noteq> []" by (simp add: show_nat_nonempty)
  show "digits_val (replicate z (CHR ''0'') @ show_nat n) = int n"
    by (simp add: digits_val_zeros digits_val_show_nat)
qed

lemma py_int_digits:
  assumes "list_all is_digit ds" "ds \<noteq> []"
  shows "py_int ds = Inr (digits_val ds)" "py_int (CHR ''-'' # ds) = Inr (- digits_val ds)"
proof -
  obtain c cs where e: "ds = c # cs" using assms(2) by (cases ds) auto
  with assms(1) have "is_digit c" by simp
  then have "c \<noteq> CHR ''-''" "c \<noteq> CHR ''+''" using is_digit_not_sign by blast+
  with assms e show "py_int ds = Inr (digits_val ds)" by (simp add: py_int_def)
  from assms show "py_int (CHR ''-'' # ds) = Inr (- digits_val ds)" by (simp add: py_int_def)
qed

lemma py_int_bound_text: "py_int (bound_text b) = Inr (bound_value b)"
proof (cases b)
  case (Bound neg z n)
  then show ?thesis
    using py_int_digits [OF bound_digits(1,2), of z n]
    by (simp add: bound_digits(3))
qed

lemma bound_text_nonempty: "bound_text b \<noteq> []"
  by (cases b) (simp add: show_nat_nonempty)

lemma signed_digits_digits: "list_all is_digit ds \<Longrightarrow> signed_digits ds \<and> signed_digits (CHR ''-'' # ds)"
  by (cases ds) (auto simp: signed_digits_def dest: is_digit_not_sign)

lemma signed_digits_bound_text: "signed_digits (bound_text b)"
proof (cases b)
  case (Bound neg z n)
  then show ?thesis
    using signed_digits_digits [OF bound_digits(1), of z n] by simp
qed

lemma signed_digits_index_text: "signed_digits (index_text a)"
  by (cases a) (simp_all add: signed_digits_bound_text, simp add: signed_digits_def)

lemma truthy_index_text: "truthy (Some (index_text a)) \<longleftrightarrow> a \<noteq> None"
  by (cases a) (simp_all add: bound_text_nonempty)

text \<open>
  Every text \<^verbatim>\<open>-?[0-9]+\<close> is the text of a bound, and \<open>decimal\<close> is
  \<^verbatim>\<open>str\<close>.
\<close>

lemma show_nat_snoc:
  assumes "0 < n" "(d::nat) < 10"
  shows "show_nat n @ [char_of (48 + d)] = show_nat (10 * n + d)"
proof -
  have "(10 * n + d) div 10 = n" "(10 * n + d) mod 10 = d" using assms(2) by simp_all
  then show ?thesis using assms(1) by (subst (2) show_nat.simps) simp
qed

lemma digit_char: "is_digit c \<Longrightarrow> \<exists>d::nat. d < 10 \<and> c = char_of (48 + d)"
proof -
  assume "is_digit c"
  then have r: "48 \<le> (of_char c :: nat)" "(of_char c :: nat) \<le> 57" by (simp_all add: is_digit_def Let_def)
  then have "48 + (of_char c - 48 :: nat) = of_char c" by simp
  then have "char_of (48 + (of_char c - 48 :: nat)) = c" by simp
  with r show ?thesis by (intro exI [of _ "of_char c - 48"]) simp
qed

lemma digits_cover:
  "list_all is_digit ds \<Longrightarrow> ds \<noteq> [] \<Longrightarrow> \<exists>z n. ds = replicate z (CHR ''0'') @ show_nat n"
proof (induction ds rule: rev_induct)
  case Nil
  then show ?case by simp
next
  case (snoc c ds)
  from snoc.prems(1) obtain d :: nat where d: "d < 10" "c = char_of (48 + d)"
    using digit_char by auto
  have one: "[c] = show_nat d" using d by (subst show_nat.simps) simp
  show ?case
  proof (cases "ds = []")
    case True
    with one show ?thesis by (intro exI [of _ 0] exI [of _ d]) simp
  next
    case False
    with snoc obtain z n where zn: "ds = replicate z (CHR ''0'') @ show_nat n" by auto
    show ?thesis
    proof (cases "n = 0")
      case True
      have "show_nat 0 = [CHR ''0'']" by code_simp
      with zn True one have "ds @ [c] = replicate (Suc z) (CHR ''0'') @ show_nat d"
        by (simp add: replicate_append_same)
      then show ?thesis by blast
    next
      case False
      with zn d show_nat_snoc [of n d] have "ds @ [c] = replicate z (CHR ''0'') @ show_nat (10 * n + d)"
        by simp
      then show ?thesis by blast
    qed
  qed
qed

lemma bound_text_covers:
  assumes "signed_digits a" "a \<noteq> []" "a \<noteq> ''-''"
  shows "\<exists>b. a = bound_text b"
proof (cases "\<exists>ds. a = CHR ''-'' # ds")
  case True
  then obtain ds where a: "a = CHR ''-'' # ds" by blast
  with assms have "list_all is_digit ds" "ds \<noteq> []" by (auto simp: signed_digits_def)
  from digits_cover [OF this] obtain z n where "ds = replicate z (CHR ''0'') @ show_nat n" by blast
  with a have "a = bound_text (Bound True z n)" by simp
  then show ?thesis by blast
next
  case False
  with assms have "list_all is_digit a" by (cases a) (auto simp: signed_digits_def)
  from digits_cover [OF this assms(2)] obtain z n where "a = replicate z (CHR ''0'') @ show_nat n" by blast
  then have "a = bound_text (Bound False z n)" by simp
  then show ?thesis by blast
qed

lemma bound_value_decimal: "bound_value (decimal i) = i"
  by (simp add: decimal_def)

text \<open>What \<open>thebe_args\<close> makes of the groups of a match.\<close>

lemma thebe_args_groups:
  assumes "search FORMAT s = Some g"
    and "map_of g ''start'' = (case cells of None \<Rightarrow> None | Some c \<Rightarrow> Some (index_text (fst c)))"
    and "map_of g ''end'' = (case cells of None \<Rightarrow> None | Some c \<Rightarrow> Some (index_text (snd c)))"
    and "map_of g ''src'' = Some path"
    and "map_of g ''language'' = lang"
  shows "thebe_args s = Inr (directive_of path cells lang)"
proof (cases cells)
  case None
  with assms show ?thesis by (simp add: thebe_args_def directive_of_def)
next
  case (Some c)
  obtain a b where c: "c = (a, b)" by (cases c)
  show ?thesis
    using assms Some c
    by (cases a; cases b) (simp_all add: thebe_args_def directive_of_def py_int_bound_text bound_text_nonempty)
qed

lemma thebe_args_directive_text:
  assumes "blank lead" "path_ok path" "blank sep1" "sep1 \<noteq> []" "blank sep2" "sep2 \<noteq> []"
    "lang_ok lang" "blank trail"
  shows "thebe_args (directive_text lead path sep1 cells sep2 lang trail) = Inr (directive_of path cells lang)"
proof -
  let ?C = "case cells of None \<Rightarrow> [] | Some c \<Rightarrow> cells_clause c"
  let ?L = "case lang of None \<Rightarrow> [] | Some l \<Rightarrow> language_clause l"
  let ?gc = "case cells of None \<Rightarrow> [] | Some c \<Rightarrow> [(''end'', index_text (snd c)), (''start'', index_text (fst c))]"
  let ?gl = "case lang of None \<Rightarrow> [] | Some l \<Rightarrow> [(''language'', l)]"
  define w1 where "w1 = (if cells \<noteq> None then sep1 else if lang \<noteq> None then sep2 else trail)"
  define w2 where "w2 = (if cells = None then [] else if lang \<noteq> None then sep2 else trail)"
  define w3 where "w3 = (if lang = None then [] else trail)"
  have shape: "directive_text lead path sep1 cells sep2 lang trail = lead @ path @ w1 @ ?C @ w2 @ ?L @ w3"
    by (cases cells; cases lang) (simp_all add: directive_text_def w1_def w2_def w3_def)
  have sp: "\<forall>c\<in>set lead. is_space c" "\<forall>c\<in>set w1. is_space c" "\<forall>c\<in>set w2. is_space c"
    "\<forall>c\<in>set w3. is_space c"
    using assms by (auto simp: blank_def list_all_iff w1_def w2_def w3_def)
  have pa: "path \<noteq> []" "\<forall>c\<in>set path. \<not> is_space c"
    using assms(2) by (auto simp: path_ok_def list_all_iff)
  have sep: "w1 = [] \<longrightarrow> ?C = [] \<and> ?L = []"
    using assms(4,6) by (cases cells; cases lang) (auto simp: w1_def)
  have C: "(?C = [] \<and> ?gc = [] \<and> w2 = []) \<or>
            (\<exists>a b. signed_digits a \<and> signed_digits b \<and> ?C = ''cells['' @ a @ '':'' @ b @ '']''
               \<and> ?gc = [(''end'', b), (''start'', a)])"
    by (cases cells) (auto simp: w2_def cells_clause_def signed_digits_index_text)
  have L: "(?L = [] \<and> ?gl = [] \<and> w3 = []) \<or>
            (\<exists>l. list_all (in_class LangChar) l \<and> ?L = ''language['' @ l @ '']''
               \<and> ?gl = [(''language'', l)])"
    using assms(7) by (cases lang) (auto simp: w3_def language_clause_def lang_ok_def)
  have "search FORMAT (lead @ path @ w1 @ ?C @ w2 @ ?L @ w3) = Some (?gl @ ?gc @ [(''src'', path)])"
    by (rule search_shape [OF sp(1) pa sp(2,3,4) sep C L])
  then show ?thesis
    unfolding shape
    by (rule thebe_args_groups) (cases cells; cases lang; simp)+
qed

subsection \<open>The directive parser\<close>



subsection \<open>Subjects that FORMAT does not match\<close>

lemma greedy_consumes:
  assumes "(j, s', g') \<in> set (greedy lo cl (i, s, g))"
  shows "\<exists>u. s = u @ s' \<and> set u \<subseteq> {c. in_class cl c}"
proof -
  from assms have "\<exists>k. k \<le> length (takeWhile (in_class cl) s) \<and> s' = drop k s"
    by (auto simp: greedy_def intro: less_imp_le)
  then obtain k where k: "k \<le> length (takeWhile (in_class cl) s)" "s' = drop k s"
    by blast
  have "take k s = take k (takeWhile (in_class cl) s)"
    using k(1) by (metis takeWhile_dropWhile_id take_append diff_is_0_eq' take_0 append_Nil2)
  then have "set (take k s) \<subseteq> {c. in_class cl c}"
    by (metis (mono_tags, lifting) in_set_takeD mem_Collect_eq set_takeWhileD subsetI)
  with k(2) show ?thesis
    by (intro exI [of _ "take k s"]) simp
qed

lemma rmatch_consumes:
  "(j, s', g') \<in> set (rmatch r (i, s, g)) \<Longrightarrow> \<exists>u. s = u @ s' \<and> set u \<subseteq> alphabet r"
proof (induction r arbitrary: i s g j s' g')
  case Bol
  then show ?case by (auto split: if_splits)
next
  case Eol
  then show ?case by (auto split: if_splits)
next
  case (Lit t)
  then have "take (length t) s = t" "s' = drop (length t) s" by (auto split: if_splits)
  then have "s = t @ s'" by (metis append_take_drop_id)
  then show ?case by auto
next
  case (Plus cl)
  then show ?case using greedy_consumes by simp
next
  case (Star cl)
  then show ?case using greedy_consumes by simp
next
  case (Opt r)
  then show ?case by fastforce
next
  case (Seq r1 r2)
  from Seq.prems obtain x where x: "x \<in> set (rmatch r1 (i, s, g))" "(j, s', g') \<in> set (rmatch r2 x)"
    by auto
  obtain k t h where xe: "x = (k, t, h)" by (cases x)
  from Seq.IH(1) [of k t h i s g] x(1) xe obtain u1 where u1: "s = u1 @ t" "set u1 \<subseteq> alphabet r1"
    by auto
  from Seq.IH(2) [of j s' g' k t h] x(2) xe obtain u2 where u2: "t = u2 @ s'" "set u2 \<subseteq> alphabet r2"
    by auto
  from u1 u2 show ?case by (intro exI [of _ "u1 @ u2"]) auto
next
  case (Group r)
  then show ?case by simp
next
  case (Named n r)
  then obtain g0 where "(j, s', g0) \<in> set (rmatch r (i, s, g))" by auto
  with Named.IH show ?case by simp
qed

lemma leads_consumes:
  assumes "\<And>u t. P (u @ t) \<Longrightarrow> set u \<subseteq> alphabet r \<Longrightarrow> Q t"
  shows "leads r P Q"
  unfolding leads_def
proof (intro allI impI ballI)
  fix i s g y assume P: "P s" and y: "y \<in> set (rmatch r (i, s, g))"
  obtain j s' g' where ye: "y = (j, s', g')" by (cases y)
  with y rmatch_consumes obtain u where "s = u @ s'" "set u \<subseteq> alphabet r" by blast
  with P assms ye show "Q (fst (snd y))" by auto
qed

lemma leads_Seq: "leads r1 P Q \<Longrightarrow> leads r2 Q R \<Longrightarrow> leads (Seq r1 r2) P R"
  unfolding leads_def by fastforce

lemma leads_Opt: "leads r P Q \<Longrightarrow> (\<And>s. P s \<Longrightarrow> Q s) \<Longrightarrow> leads (Opt r) P Q"
  unfolding leads_def by fastforce

lemma leads_False: "leads r (\<lambda>_. False) Q"
  by (simp add: leads_def)

lemma leads_fail: "leads r P (\<lambda>_. False) \<Longrightarrow> P s \<Longrightarrow> rmatch r (i, s, g) = []"
  unfolding leads_def by (metis ex_in_conv set_empty)

lemma alphabet_ws: "alphabet (Opt (Group (Plus Space))) = {c. is_space c}"
  by auto

lemma is_digit_nospace: "is_digit c \<Longrightarrow> \<not> is_space c"
  by (auto simp: is_digit_def is_space_def Let_def)

lemma is_lower_nospace: "is_lower c \<Longrightarrow> \<not> is_space c"
  by (auto simp: is_lower_def is_space_def Let_def)

lemma alphabet_src: "alphabet (Named ''src'' (Plus NonSpace)) = {c. \<not> is_space c}"
  by auto

lemma alphabet_cells_re: "alphabet cells_re \<subseteq> {c. \<not> is_space c}"
  by (auto simp: cells_re_def is_digit_nospace) (simp_all add: is_space_def)

lemma alphabet_language_re: "alphabet language_re \<subseteq> {c. \<not> is_space c}"
  by (auto simp: language_re_def is_digit_nospace is_lower_nospace) (simp_all add: is_space_def)

text \<open>A subject of white space only has no match.\<close>

lemma leads_ws_blank: "leads (Opt (Group (Plus Space))) blank blank"
  by (rule leads_consumes) (simp add: blank_def)

lemma leads_src_blank: "leads (Named ''src'' (Plus NonSpace)) blank (\<lambda>_. False)"
proof -
  have "rmatch (Named ''src'' (Plus NonSpace)) (i, s, g) = []" if "blank s" for i s g
    using that by (cases s) (simp_all add: greedy_none blank_def)
  then show ?thesis by (simp add: leads_def)
qed

lemma search_blank: "blank s \<Longrightarrow> search FORMAT s = None"
proof -
  assume b: "blank s"
  have "leads (Seq (Opt (Group (Plus Space))) (Seq (Named ''src'' (Plus NonSpace))
     (Seq (Opt (Group (Plus Space))) (Seq (Opt cells_re) (Seq (Opt (Group (Plus Space)))
     (Seq (Opt language_re) (Seq (Opt (Group (Plus Space))) (Seq Eol (Lit [])))))))))
     blank (\<lambda>_. False)"
    by (rule leads_Seq [OF leads_ws_blank], rule leads_Seq [OF leads_src_blank], rule leads_False)
  from leads_fail [OF this b] have "rmatch FORMAT (0, s, []) = []"
    by (simp add: FORMAT_unfold)
  then show ?thesis by (simp add: search_FORMAT)
qed


lemma append_keeps_tail:
  "u @ t = q @ c # T \<Longrightarrow> c \<notin> set u \<Longrightarrow> \<exists>q'. q = u @ q' \<and> t = q' @ c # T"
proof (induction u arbitrary: q)
  case Nil
  then show ?case by simp
next
  case (Cons a u)
  then obtain q1 where q: "q = a # q1" by (cases q) auto
  with Cons.prems have "u @ t = q1 @ c # T" "c \<notin> set u" by auto
  from Cons.IH [OF this] q show ?case by auto
qed

lemma leads_keep_tail:
  assumes "Z \<noteq> []" "hd Z \<notin> alphabet r"
  shows "leads r (tail_at Z) (tail_at Z)"
proof (rule leads_consumes)
  fix u t assume "tail_at Z (u @ t)" and u: "set u \<subseteq> alphabet r"
  then obtain x where x: "u @ t = x @ Z" by (auto simp: tail_at_def)
  obtain c T where Z: "Z = c # T" using assms(1) by (cases Z) auto
  with assms(2) u have "c \<notin> set u" by auto
  from append_keeps_tail [OF x [unfolded Z] this] show "tail_at Z t"
    by (auto simp: tail_at_def Z)
qed

lemma leads_ws_tail_after_space:
  assumes "Z \<noteq> []" "\<not> is_space (hd Z)"
  shows "leads (Opt (Group (Plus Space))) (tail_after_space Z) (tail_after_space Z)"
proof (rule leads_consumes)
  fix u t assume a: "tail_after_space Z (u @ t)" and u: "set u \<subseteq> alphabet (Opt (Group (Plus Space)))"
  then obtain x where x: "u @ t = x @ Z" "x = [] \<or> is_space (last x)"
    by (auto simp: tail_after_space_def)
  obtain c T where Z: "Z = c # T" using assms(1) by (cases Z) auto
  with assms(2) u have "c \<notin> set u" by auto
  from append_keeps_tail [OF x(1) [unfolded Z] this] obtain q' where q': "x = u @ q'" "t = q' @ Z"
    by (auto simp: Z)
  have "q' = [] \<or> is_space (last q')" using x(2) q'(1) by (cases "q' = []") auto
  with q' show "tail_after_space Z t" by (auto simp: tail_after_space_def)
qed

lemma leads_to_tail_after_space:
  assumes "w \<noteq> []" "blank w" "alphabet r \<subseteq> {c. \<not> is_space c}"
  shows "leads r (tail_at (w @ Z)) (tail_after_space Z)"
proof (rule leads_consumes)
  fix u t assume "tail_at (w @ Z) (u @ t)" and u: "set u \<subseteq> alphabet r"
  then obtain x where x: "u @ t = x @ w @ Z" by (auto simp: tail_at_def)
  obtain c w' where w: "w = c # w'" using assms(1) by (cases w) auto
  with assms(2) have sp: "is_space c" by (simp add: blank_def)
  with assms(3) u have "c \<notin> set u" by auto
  from append_keeps_tail [of u t x c "w' @ Z"] x w this obtain q' where q': "t = q' @ w @ Z"
    by auto
  have "is_space (last (q' @ w))" using assms(1,2) by (simp add: blank_def list_all_iff)
  with q' assms(1) show "tail_after_space Z t"
    unfolding tail_after_space_def by (intro exI [of _ "q' @ w"]) simp
qed

lemma leads_nospace_tail_after_space:
  assumes "alphabet r \<subseteq> {c. \<not> is_space c}" "\<And>i g. rmatch r (i, Z, g) = []"
  shows "leads (Opt r) (tail_after_space Z) (tail_after_space Z)"
  unfolding leads_def
proof (intro allI impI ballI)
  fix i s g y assume P: "tail_after_space Z s" and y: "y \<in> set (rmatch (Opt r) (i, s, g))"
  obtain j s' g' where ye: "y = (j, s', g')" by (cases y)
  from P obtain x where x: "s = x @ Z" "x = [] \<or> is_space (last x)"
    by (auto simp: tail_after_space_def)
  show "tail_after_space Z (fst (snd y))"
  proof (cases "y = (i, s, g)")
    case True
    with P show ?thesis by simp
  next
    case False
    with y have m: "(j, s', g') \<in> set (rmatch r (i, s, g))" by (auto simp: ye)
    with assms(2) x(1) have "x \<noteq> []" by auto
    then obtain x0 c where x0: "x = x0 @ [c]" by (metis rev_exhaust)
    with x(2) have sp: "is_space c" by simp
    from rmatch_consumes [OF m] obtain u where u: "s = u @ s'" "set u \<subseteq> alphabet r" by blast
    with assms(1) sp have "c \<notin> set u" by auto
    from append_keeps_tail [of u s' x0 c Z] u(1) x(1) x0 this obtain q' where "s' = q' @ c # Z"
      by auto
    then have "s' = (q' @ [c]) @ Z \<and> is_space (last (q' @ [c]))" using sp by simp
    then show ?thesis unfolding tail_after_space_def ye by (intro exI [of _ "q' @ [c]"]) simp
  qed
qed

lemma tail_after_space_tail_at: "tail_after_space (a @ b) t \<Longrightarrow> tail_at b t"
  by (auto simp: tail_after_space_def tail_at_def)

lemma leads_weaken: "leads r P Q \<Longrightarrow> (\<And>s. P' s \<Longrightarrow> P s) \<Longrightarrow> (\<And>s. Q s \<Longrightarrow> Q' s) \<Longrightarrow> leads r P' Q'"
  unfolding leads_def by blast

lemma leads_Eol_tail:
  assumes "length Z \<ge> 2"
  shows "leads (Seq Eol (Lit [])) (tail_at Z) (\<lambda>_. False)"
proof -
  have "rmatch (Seq Eol (Lit [])) (i, s, g) = []" if "tail_at Z s" for i s g
  proof -
    from that obtain x where "s = x @ Z" by (auto simp: tail_at_def)
    with assms have "length s \<ge> 2" by simp
    then have "s \<noteq> [] \<and> s \<noteq> [CHR 0x0A]" by auto
    then show ?thesis by simp
  qed
  then show ?thesis by (simp add: leads_def)
qed

text \<open>With the language clause before the cells clause there is no match.\<close>

lemma search_language_first:
  assumes "path_ok path" "blank lead" "blank sep1" "sep1 \<noteq> []" "blank sep2" "sep2 \<noteq> []"
  shows "search FORMAT (lead @ path @ sep1 @ language_clause l @ sep2 @ cells_clause c @ trail) = None"
proof -
  let ?C = "cells_clause c @ trail"
  let ?L = "language_clause l @ sep2 @ ?C"
  have ns: "\<not> is_space (CHR ''l'')" "\<not> is_space (CHR ''c'')" by (simp_all add: is_space_def)
  have Lh: "?L \<noteq> []" "hd ?L = CHR ''l''" by (simp_all add: language_clause_def)
  have Ch: "?C \<noteq> []" "hd ?C = CHR ''c''" "length ?C \<ge> 2" by (simp_all add: cells_clause_def)
  have Ph: "path @ sep1 @ ?L \<noteq> []" "\<not> is_space (hd (path @ sep1 @ ?L))"
    using assms(1) by (cases path; simp add: path_ok_def)+
  have 1: "leads (Opt (Group (Plus Space))) (tail_at (path @ sep1 @ ?L)) (tail_at (sep1 @ ?L))"
  proof (rule leads_weaken [OF leads_keep_tail [of "path @ sep1 @ ?L"]])
    show "path @ sep1 @ ?L \<noteq> []" by (rule Ph)
    show "hd (path @ sep1 @ ?L) \<notin> alphabet (Opt (Group (Plus Space)))" using Ph(2) by simp
    show "tail_at (path @ sep1 @ ?L) s \<Longrightarrow> tail_at (sep1 @ ?L) s" for s
      unfolding tail_at_def by (metis append.assoc)
  qed simp
  have 2: "leads (Named ''src'' (Plus NonSpace)) (tail_at (sep1 @ ?L)) (tail_after_space ?L)"
    by (rule leads_to_tail_after_space [OF assms(4,3)]) auto
  have Lns: "\<not> is_space (hd ?L)" unfolding Lh(2) by (rule ns(1))
  have Cns: "hd ?C \<notin> alphabet (Opt (Group (Plus Space)))" unfolding Ch(2) using ns(2) by simp
  have 3: "leads (Opt (Group (Plus Space))) (tail_after_space ?L) (tail_after_space ?L)"
    by (rule leads_ws_tail_after_space [OF Lh(1) Lns])
  have 4: "leads (Opt cells_re) (tail_after_space ?L) (tail_after_space ?L)"
    by (rule leads_nospace_tail_after_space [OF alphabet_cells_re], rule cells_re_none)
       (simp add: language_clause_def)
  have 5: "leads (Opt language_re) (tail_after_space ?L) (tail_at ?C)"
  proof (rule leads_Opt)
    have "leads language_re (tail_at (sep2 @ ?C)) (tail_after_space ?C)"
      by (rule leads_to_tail_after_space [OF assms(6,5) alphabet_language_re])
    then show "leads language_re (tail_after_space ?L) (tail_at ?C)"
    proof (rule leads_weaken)
      show "tail_after_space ?L s \<Longrightarrow> tail_at (sep2 @ ?C) s" for s
        by (rule tail_after_space_tail_at [of "language_clause l"]) simp
      show "tail_after_space ?C s \<Longrightarrow> tail_at ?C s" for s
        by (auto simp: tail_after_space_def tail_at_def)
    qed
    show "tail_after_space ?L s \<Longrightarrow> tail_at ?C s" for s
      by (rule tail_after_space_tail_at [of "language_clause l @ sep2"]) simp
  qed
  have 6: "leads (Opt (Group (Plus Space))) (tail_at ?C) (tail_at ?C)"
    by (rule leads_keep_tail [OF Ch(1) Cns])
  have 7: "leads (Seq Eol (Lit [])) (tail_at ?C) (\<lambda>_. False)"
    by (rule leads_Eol_tail [OF Ch(3)])
  have a: "leads (Seq (Opt (Group (Plus Space))) (Seq (Named ''src'' (Plus NonSpace))
     (Seq (Opt (Group (Plus Space))) (Seq (Opt cells_re) (Seq (Opt (Group (Plus Space)))
     (Seq (Opt language_re) (Seq (Opt (Group (Plus Space))) (Seq Eol (Lit [])))))))))
     (tail_at (path @ sep1 @ ?L)) (\<lambda>_. False)"
    by (rule leads_Seq [OF 1], rule leads_Seq [OF 2], rule leads_Seq [OF 3], rule leads_Seq [OF 4],
        rule leads_Seq [OF 3], rule leads_Seq [OF 5], rule leads_Seq [OF 6], rule 7)
  have b: "tail_at (path @ sep1 @ ?L) (lead @ path @ sep1 @ ?L)"
    by (auto simp: tail_at_def)
  from leads_fail [OF a b] have "rmatch FORMAT (0, lead @ path @ sep1 @ ?L, []) = []"
    by (simp add: FORMAT_unfold)
  then show ?thesis by (simp add: search_FORMAT)
qed

subsection \<open>FORMAT matches exactly the directives of the grammar\<close>

text \<open>The matcher finds a match where the pattern has one, and only there.\<close>

lemma greedy_set:
  "(j, s', g') \<in> set (greedy lo cl (i, s, g)) \<longleftrightarrow>
   (\<exists>k. lo \<le> k \<and> k \<le> length (takeWhile (in_class cl) s) \<and> j = i + k \<and> s' = drop k s \<and> g' = g)"
  by (auto simp: greedy_def)

lemma take_takeWhile:
  assumes "k \<le> length (takeWhile P s)"
  shows "list_all P (take k s) \<and> length (take k s) = k"
proof -
  have e: "take k s = take k (takeWhile P s)"
    using assms by (metis takeWhile_dropWhile_id take_append diff_is_0_eq' take_0 append_Nil2)
  have "\<forall>x\<in>set (take k (takeWhile P s)). P x"
    using in_set_takeD set_takeWhileD by fast
  then have "list_all P (take k s)" by (simp add: e list_all_iff)
  moreover have "k \<le> length s" using assms length_takeWhile_le [of P s] by linarith
  ultimately show ?thesis by simp
qed

lemma rmatch_sound:
  "(j, s', g') \<in> set (rmatch r (i, s, g)) \<Longrightarrow> \<exists>u. s = u @ s' \<and> j = i + length u \<and> sem r i u s'"
proof (induction r arbitrary: i s g j s' g')
  case Bol
  then show ?case by (auto split: if_splits)
next
  case Eol
  then show ?case by (auto split: if_splits)
next
  case (Lit t)
  then have "take (length t) s = t" "s' = drop (length t) s" "j = i + length t" by (auto split: if_splits)
  then have "s = t @ s'" by (metis append_take_drop_id)
  with \<open>j = i + length t\<close> show ?case by auto
next
  case (Plus cl)
  then obtain k where k: "1 \<le> k" "k \<le> length (takeWhile (in_class cl) s)" "j = i + k" "s' = drop k s"
    by (auto simp: greedy_set)
  from take_takeWhile [OF k(2)] k show ?case
    by (intro exI [of _ "take k s"]) auto
next
  case (Star cl)
  then obtain k where k: "k \<le> length (takeWhile (in_class cl) s)" "j = i + k" "s' = drop k s"
    by (auto simp: greedy_set)
  from take_takeWhile [OF k(1)] k show ?case
    by (intro exI [of _ "take k s"]) auto
next
  case (Opt r)
  then show ?case by fastforce
next
  case (Seq r1 r2)
  from Seq.prems obtain x where x: "x \<in> set (rmatch r1 (i, s, g))" "(j, s', g') \<in> set (rmatch r2 x)"
    by auto
  obtain k t h where xe: "x = (k, t, h)" by (cases x)
  from Seq.IH(1) [of k t h i s g] x(1) xe obtain u1 where
    u1: "s = u1 @ t" "k = i + length u1" "sem r1 i u1 t" by auto
  from Seq.IH(2) [of j s' g' k t h] x(2) xe obtain u2 where
    u2: "t = u2 @ s'" "j = k + length u2" "sem r2 k u2 s'" by auto
  from u1 u2 show ?case by (intro exI [of _ "u1 @ u2"]) auto
next
  case (Group r)
  then show ?case by simp
next
  case (Named n r)
  then obtain g0 where "(j, s', g0) \<in> set (rmatch r (i, s, g))" by auto
  with Named.IH show ?case by simp
qed

lemma takeWhile_prefix_length:
  "list_all P u \<Longrightarrow> length u \<le> length (takeWhile P (u @ s))"
  by (induction u) auto

lemma rmatch_complete:
  "sem r i u s' \<Longrightarrow> \<exists>g'. (i + length u, s', g') \<in> set (rmatch r (i, u @ s', g))"
proof (induction r arbitrary: i u s' g)
  case Bol
  then show ?case by simp
next
  case Eol
  then show ?case by simp
next
  case (Lit t)
  then show ?case by simp
next
  case (Plus cl)
  then have "1 \<le> length u" "length u \<le> length (takeWhile (in_class cl) (u @ s'))"
    by (auto simp: takeWhile_prefix_length Suc_le_eq)
  then have "(i + length u, s', g) \<in> set (greedy 1 cl (i, u @ s', g))"
    unfolding greedy_set by (intro exI [of _ "length u"]) simp
  then show ?case by auto
next
  case (Star cl)
  then have "length u \<le> length (takeWhile (in_class cl) (u @ s'))"
    by (auto simp: takeWhile_prefix_length)
  then have "(i + length u, s', g) \<in> set (greedy 0 cl (i, u @ s', g))"
    unfolding greedy_set by (intro exI [of _ "length u"]) simp
  then show ?case by auto
next
  case (Opt r)
  show ?case
  proof (cases "sem r i u s'")
    case True
    from Opt.IH [OF this, of g] show ?thesis by auto
  next
    case False
    with Opt.prems have "u = []" by simp
    then show ?thesis by auto
  qed
next
  case (Seq r1 r2)
  from Seq.prems obtain u1 u2 where u: "u = u1 @ u2" "sem r1 i u1 (u2 @ s')"
    "sem r2 (i + length u1) u2 s'" by auto
  from Seq.IH(1) [OF u(2), of g] obtain g1 where
    1: "(i + length u1, u2 @ s', g1) \<in> set (rmatch r1 (i, u1 @ u2 @ s', g))" by blast
  from Seq.IH(2) [OF u(3), of g1] obtain g2 where
    2: "(i + length u1 + length u2, s', g2) \<in> set (rmatch r2 (i + length u1, u2 @ s', g1))" by blast
  have "(i + length u1 + length u2, s', g2) \<in> set (rmatch (Seq r1 r2) (i, u1 @ u2 @ s', g))"
    unfolding rmatch.simps set_concat set_map using 1 2 by blast
  then show ?case unfolding u(1) by (intro exI [of _ g2]) (simp add: add.assoc)
next
  case (Group r)
  then show ?case by simp
next
  case (Named n r)
  from Named.prems have "sem r i u s'" by simp
  from Named.IH [OF this, of g] obtain g0 where
    g0: "(i + length u, s', g0) \<in> set (rmatch r (i, u @ s', g))" by blast
  have "(\<lambda>(j, t, g'). (j, t, (n, take (j - i) (u @ s')) # g')) (i + length u, s', g0)
          \<in> set (rmatch (Named n r) (i, u @ s', g))"
    unfolding rmatch.simps set_map using g0 by (rule imageI)
  then show ?case by (intro exI [of _ "(n, u) # g0"]) simp
qed


lemma sem_SeqI:
  "sem r1 i u1 (u2 @ s') \<Longrightarrow> sem r2 (i + length u1) u2 s' \<Longrightarrow> sem (Seq r1 r2) i (u1 @ u2) s'"
  by auto

lemma sem_SeqE:
  assumes "sem (Seq r1 r2) i u s'"
  obtains u1 u2 where "u = u1 @ u2" "sem r1 i u1 (u2 @ s')" "sem r2 (i + length u1) u2 s'"
  using assms by auto

lemma sem_ws: "sem (Opt (Group (Plus Space))) i u s' \<longleftrightarrow> blank u"
  by (cases u) (simp_all add: blank_def list_all_iff)

lemma sem_src: "sem (Named ''src'' (Plus NonSpace)) i u s' \<longleftrightarrow> path_ok u"
  by (simp add: path_ok_def list_all_iff)

lemma sem_signed: "sem (Seq (Opt (Lit ''-'')) (Star Digit)) i a s' \<longleftrightarrow> signed_digits a"
proof
  assume "sem (Seq (Opt (Lit ''-'')) (Star Digit)) i a s'"
  then obtain u1 u2 where u: "a = u1 @ u2" "u1 = [] \<or> u1 = ''-''" "list_all (in_class Digit) u2"
    by auto
  then have "list_all is_digit u2" by (simp add: list_all_iff)
  from signed_digits_digits [OF this] u(1,2) show "signed_digits a" by auto
next
  assume sd: "signed_digits a"
  show "sem (Seq (Opt (Lit ''-'')) (Star Digit)) i a s'"
  proof (cases "\<exists>ds. a = CHR ''-'' # ds")
    case True
    then obtain ds where a: "a = ''-'' @ ds" by auto
    with sd have "list_all (in_class Digit) ds" by (simp add: signed_digits_def list_all_iff)
    then show ?thesis unfolding a by (intro sem_SeqI) simp_all
  next
    case False
    with sd have "list_all (in_class Digit) a"
      by (cases a) (auto simp: signed_digits_def list_all_iff)
    then have "sem (Seq (Opt (Lit ''-'')) (Star Digit)) i ([] @ a) s'"
      by (intro sem_SeqI) simp_all
    then show ?thesis by simp
  qed
qed

lemma sem_langchars:
  "sem (Seq (Opt (Lit ''-'')) (Star LangChar)) i l s' \<longleftrightarrow> list_all (in_class LangChar) l"
proof
  assume "sem (Seq (Opt (Lit ''-'')) (Star LangChar)) i l s'"
  then obtain u1 u2 where u: "l = u1 @ u2" "u1 = [] \<or> u1 = ''-''" "list_all (in_class LangChar) u2"
    by auto
  then show "list_all (in_class LangChar) l" by auto
next
  assume "list_all (in_class LangChar) l"
  then have "sem (Seq (Opt (Lit ''-'')) (Star LangChar)) i ([] @ l) s'"
    by (intro sem_SeqI) simp_all
  then show "sem (Seq (Opt (Lit ''-'')) (Star LangChar)) i l s'" by simp
qed

lemma sem_cells: "sem cells_re i u s' \<longleftrightarrow> cells_text u"
proof
  assume "sem cells_re i u s'"
  then have s0: "sem (Seq (Group (Lit ''cells['')) (Seq (Named ''start'' (Seq (Opt (Lit ''-'')) (Star Digit)))
      (Seq (Lit '':'') (Seq (Named ''end'' (Seq (Opt (Lit ''-'')) (Star Digit)))
      (Seq (Group (Lit '']'')) (Lit [])))))) i u s'"
    by (simp only: cells_re_def seqs.simps sem.simps(8))
  from s0 obtain u1 r1 where 1: "u = u1 @ r1"
    and p1: "sem (Group (Lit ''cells['')) i u1 (r1 @ s')"
    and s1: "sem (Seq (Named ''start'' (Seq (Opt (Lit ''-'')) (Star Digit)))
      (Seq (Lit '':'') (Seq (Named ''end'' (Seq (Opt (Lit ''-'')) (Star Digit)))
      (Seq (Group (Lit '']'')) (Lit []))))) (i + length u1) r1 s'"
    by (rule sem_SeqE)
  from s1 obtain a r2 where 2: "r1 = a @ r2"
    and p2: "sem (Named ''start'' (Seq (Opt (Lit ''-'')) (Star Digit))) (i + length u1) a (r2 @ s')"
    and s2: "sem (Seq (Lit '':'') (Seq (Named ''end'' (Seq (Opt (Lit ''-'')) (Star Digit)))
      (Seq (Group (Lit '']'')) (Lit [])))) (i + length u1 + length a) r2 s'"
    by (rule sem_SeqE)
  from s2 obtain c r3 where 3: "r2 = c @ r3"
    and p3: "sem (Lit '':'') (i + length u1 + length a) c (r3 @ s')"
    and s3: "sem (Seq (Named ''end'' (Seq (Opt (Lit ''-'')) (Star Digit)))
      (Seq (Group (Lit '']'')) (Lit []))) (i + length u1 + length a + length c) r3 s'"
    by (rule sem_SeqE)
  from s3 obtain b r4 where 4: "r3 = b @ r4"
    and p4: "sem (Named ''end'' (Seq (Opt (Lit ''-'')) (Star Digit))) (i + length u1 + length a + length c) b (r4 @ s')"
    and s4: "sem (Seq (Group (Lit '']'')) (Lit [])) (i + length u1 + length a + length c + length b) r4 s'"
    by (rule sem_SeqE)
  from s4 have 5: "r4 = '']''" by auto
  from p1 have q1: "u1 = ''cells[''" by simp
  from p2 have q2: "signed_digits a" by (simp only: sem.simps(9) sem_signed)
  from p3 have q3: "c = '':''" by simp
  from p4 have q4: "signed_digits b" by (simp only: sem.simps(9) sem_signed)
  have "u = ''cells['' @ a @ '':'' @ b @ '']''" by (simp add: 1 2 3 4 5 q1 q3)
  with q2 q4 show "cells_text u" unfolding cells_text_def by blast
next
  assume "cells_text u"
  then obtain a b where ab: "signed_digits a" "signed_digits b" "u = ''cells['' @ a @ '':'' @ b @ '']'' @ []"
    by (auto simp: cells_text_def)
  show "sem cells_re i u s'"
    unfolding cells_re_def seqs.simps sem.simps(8) ab(3)
    by (intro sem_SeqI) (simp_all only: sem.simps(3,8,9) sem_signed ab(1,2))
qed

lemma sem_language: "sem language_re i u s' \<longleftrightarrow> language_text u"
proof
  assume "sem language_re i u s'"
  then have s0: "sem (Seq (Group (Lit ''language['')) (Seq (Named ''language'' (Seq (Opt (Lit ''-'')) (Star LangChar)))
      (Seq (Group (Lit '']'')) (Lit [])))) i u s'"
    by (simp only: language_re_def seqs.simps sem.simps(8))
  from s0 obtain u1 r1 where 1: "u = u1 @ r1"
    and p1: "sem (Group (Lit ''language['')) i u1 (r1 @ s')"
    and s1: "sem (Seq (Named ''language'' (Seq (Opt (Lit ''-'')) (Star LangChar)))
      (Seq (Group (Lit '']'')) (Lit []))) (i + length u1) r1 s'"
    by (rule sem_SeqE)
  from s1 obtain l r2 where 2: "r1 = l @ r2"
    and p2: "sem (Named ''language'' (Seq (Opt (Lit ''-'')) (Star LangChar))) (i + length u1) l (r2 @ s')"
    and s2: "sem (Seq (Group (Lit '']'')) (Lit [])) (i + length u1 + length l) r2 s'"
    by (rule sem_SeqE)
  from s2 have 3: "r2 = '']''" by auto
  from p1 have q1: "u1 = ''language[''" by simp
  from p2 have q2: "list_all (in_class LangChar) l" by (simp only: sem.simps(9) sem_langchars)
  have "u = ''language['' @ l @ '']''" by (simp add: 1 2 3 q1)
  with q2 show "language_text u" unfolding language_text_def by blast
next
  assume "language_text u"
  then obtain l where l: "list_all (in_class LangChar) l" "u = ''language['' @ l @ '']'' @ []"
    by (auto simp: language_text_def)
  show "sem language_re i u s'"
    unfolding language_re_def seqs.simps sem.simps(8) l(2)
    by (intro sem_SeqI) (simp_all only: sem.simps(3,8,9) sem_langchars l(1))
qed

lemma sem_opt_cells: "sem (Opt cells_re) i u s' \<longleftrightarrow> u = [] \<or> cells_text u"
  by (simp add: sem_cells)

lemma sem_opt_language: "sem (Opt language_re) i u s' \<longleftrightarrow> u = [] \<or> language_text u"
  by (simp add: sem_language)

lemma sem_FORMAT_D:
  assumes "sem FORMAT i u s'"
  shows "directive_grammar (u @ s')"
proof -
  from assms [unfolded FORMAT_unfold] obtain u0 r0 where 0: "u = u0 @ r0"
    and p0: "sem Bol i u0 (r0 @ s')"
    and s0: "sem (Seq (Opt (Group (Plus Space))) (Seq (Named ''src'' (Plus NonSpace))
     (Seq (Opt (Group (Plus Space))) (Seq (Opt cells_re) (Seq (Opt (Group (Plus Space)))
     (Seq (Opt language_re) (Seq (Opt (Group (Plus Space))) (Seq Eol (Lit [])))))))))
     (i + length u0) r0 s'"
    by (rule sem_SeqE)
  from s0 obtain lead r1 where 1: "r0 = lead @ r1"
    and p1: "sem (Opt (Group (Plus Space))) (i + length u0) lead (r1 @ s')"
    and s1: "sem (Seq (Named ''src'' (Plus NonSpace))
     (Seq (Opt (Group (Plus Space))) (Seq (Opt cells_re) (Seq (Opt (Group (Plus Space)))
     (Seq (Opt language_re) (Seq (Opt (Group (Plus Space))) (Seq Eol (Lit []))))))))
     (i + length u0 + length lead) r1 s'"
    by (rule sem_SeqE)
  from s1 obtain path r2 where 2: "r1 = path @ r2"
    and p2: "sem (Named ''src'' (Plus NonSpace)) (i + length u0 + length lead) path (r2 @ s')"
    and s2: "sem (Seq (Opt (Group (Plus Space))) (Seq (Opt cells_re) (Seq (Opt (Group (Plus Space)))
     (Seq (Opt language_re) (Seq (Opt (Group (Plus Space))) (Seq Eol (Lit [])))))))
     (i + length u0 + length lead + length path) r2 s'"
    by (rule sem_SeqE)
  from s2 obtain w1 r3 where 3: "r2 = w1 @ r3"
    and p3: "sem (Opt (Group (Plus Space))) (i + length u0 + length lead + length path) w1 (r3 @ s')"
    and s3: "sem (Seq (Opt cells_re) (Seq (Opt (Group (Plus Space)))
     (Seq (Opt language_re) (Seq (Opt (Group (Plus Space))) (Seq Eol (Lit []))))))
     (i + length u0 + length lead + length path + length w1) r3 s'"
    by (rule sem_SeqE)
  from s3 obtain C r4 where 4: "r3 = C @ r4"
    and p4: "sem (Opt cells_re) (i + length u0 + length lead + length path + length w1) C (r4 @ s')"
    and s4: "sem (Seq (Opt (Group (Plus Space)))
     (Seq (Opt language_re) (Seq (Opt (Group (Plus Space))) (Seq Eol (Lit [])))))
     (i + length u0 + length lead + length path + length w1 + length C) r4 s'"
    by (rule sem_SeqE)
  from s4 obtain w2 r5 where 5: "r4 = w2 @ r5"
    and p5: "sem (Opt (Group (Plus Space))) (i + length u0 + length lead + length path + length w1 + length C) w2 (r5 @ s')"
    and s5: "sem (Seq (Opt language_re) (Seq (Opt (Group (Plus Space))) (Seq Eol (Lit []))))
     (i + length u0 + length lead + length path + length w1 + length C + length w2) r5 s'"
    by (rule sem_SeqE)
  from s5 obtain L r6 where 6: "r5 = L @ r6"
    and p6: "sem (Opt language_re) (i + length u0 + length lead + length path + length w1 + length C + length w2) L (r6 @ s')"
    and s6: "sem (Seq (Opt (Group (Plus Space))) (Seq Eol (Lit [])))
     (i + length u0 + length lead + length path + length w1 + length C + length w2 + length L) r6 s'"
    by (rule sem_SeqE)
  from s6 obtain w3 r7 where 7: "r6 = w3 @ r7"
    and p7: "sem (Opt (Group (Plus Space))) (i + length u0 + length lead + length path + length w1 + length C + length w2 + length L) w3 (r7 @ s')"
    and s7: "sem (Seq Eol (Lit []))
     (i + length u0 + length lead + length path + length w1 + length C + length w2 + length L + length w3) r7 s'"
    by (rule sem_SeqE)
  from s7 have 8: "r7 = []" "s' = [] \<or> s' = [CHR 0x0A]" by auto
  from p0 have q0: "u0 = []" by simp
  from p1 p3 p5 p7 have b: "blank lead" "blank w1" "blank w2" "blank w3" by (simp_all only: sem_ws)
  from p2 have q2: "path_ok path" by (simp only: sem_src)
  from p4 have q4: "C = [] \<or> cells_text C" by (simp only: sem_opt_cells)
  from p6 have q6: "L = [] \<or> language_text L" by (simp only: sem_opt_language)
  have nl: "blank [CHR 0x0A]" by (simp add: blank_def is_space_def)
  from 8(2) nl b(4) have b3: "blank (w3 @ s')" by (auto simp: blank_def)
  have "u @ s' = lead @ path @ w1 @ C @ w2 @ L @ (w3 @ s')"
    by (simp add: 0 1 2 3 4 5 6 7 8(1) q0)
  with b(1,2,3) q2 q4 q6 b3 show ?thesis
    unfolding directive_grammar_def by blast
qed

lemma sem_FORMAT_I:
  assumes "directive_grammar s"
  shows "sem FORMAT 0 s []"
proof -
  from assms obtain lead path w1 C w2 L w3 where
    s0: "s = lead @ path @ w1 @ C @ w2 @ L @ w3"
    and h: "blank lead" "path_ok path" "blank w1" "blank w2" "blank w3"
      "C = [] \<or> cells_text C" "L = [] \<or> language_text L"
    unfolding directive_grammar_def by blast
  have s: "s = [] @ lead @ path @ w1 @ C @ w2 @ L @ w3 @ [] @ []" by (simp add: s0)
  show ?thesis
    unfolding FORMAT_unfold s
    by (intro sem_SeqI)
       (simp_all only: sem.simps(1,2,3) sem_ws sem_src sem_opt_cells sem_opt_language h simp_thms
         append_Nil)
qed

lemma search_grammar: "search FORMAT s \<noteq> None \<longleftrightarrow> directive_grammar s"
proof
  assume "search FORMAT s \<noteq> None"
  then obtain j s' g where "(j, s', g) \<in> set (rmatch FORMAT (0, s, []))"
    by (auto simp: search_FORMAT split: list.splits)
  from rmatch_sound [OF this] obtain u where "s = u @ s'" "sem FORMAT 0 u s'" by blast
  with sem_FORMAT_D show "directive_grammar s" by blast
next
  assume "directive_grammar s"
  from rmatch_complete [OF sem_FORMAT_I [OF this], of "[]"]
  have "rmatch FORMAT (0, s, []) \<noteq> []" by auto
  then show "search FORMAT s \<noteq> None"
    by (auto simp: search_FORMAT split: list.splits)
qed

subsection \<open>Malformed directives\<close>

text \<open>
  C3, as the specification states it, fails: \<^verbatim>\<open>cells[2:5]\<close> alone is not rejected,
  since \<^verbatim>\<open>\S+\<close> takes the whole text as the path and both clauses are absent; nor
  is a directive whose two clauses are not separated by white space.
\<close>

theorem thebe_args_cells_as_path:
  "thebe_args ''cells[2:5]''
     = Inr \<lparr>arg_src = ''cells[2:5]'', arg_start = 0, arg_end = None, arg_language = None\<rparr>
   \<and> thebe_args ''demo.ipynb cells[2:5]language[r]''
     = Inr \<lparr>arg_src = ''demo.ipynb'', arg_start = 2, arg_end = Some 5, arg_language = Some ''r''\<rparr>"
  by code_simp

text \<open>
  C3, amended. Every directive string that does not match the grammar, where a path is
  any run of characters that are not white space and the white space between the parts may
  be absent, makes the parser fail with the \<^verbatim>\<open>ValueError\<close> that carries the expected
  syntax, and no directive is produced. The grammar here lets a bound be a bare minus sign;
  what the parser does with such a bound is not part of the statement.
\<close>

theorem thebe_args_malformed:
  assumes "\<not> directive_grammar markup"
  shows "thebe_args markup
           = Inl (ValueError (''Error processing input, expected syntax: '' @ SYNTAX))"
proof -
  from assms have "search FORMAT markup = None" using search_grammar [of markup] by simp
  then show ?thesis by (simp add: thebe_args_def malformed_def)
qed

text \<open>
  Among the strings outside the grammar are \<^verbatim>\<open>demo.ipynb cells[2:]extra\<close> and every
  string without a path.
\<close>

lemma blank_not_grammar: "blank s \<Longrightarrow> \<not> directive_grammar s"
  using search_blank [of s] search_grammar [of s] by simp

theorem thebe_args_malformed_witness:
  "\<not> directive_grammar ''demo.ipynb cells[2:]extra''
   \<and> thebe_args ''demo.ipynb cells[2:]extra''
       = Inl (ValueError (''Error processing input, expected syntax: '' @ SYNTAX))
   \<and> \<not> directive_grammar ''  ''
   \<and> thebe_args ''  '' = Inl (ValueError (''Error processing input, expected syntax: '' @ SYNTAX))"
proof -
  have "search FORMAT ''demo.ipynb cells[2:]extra'' = None" by code_simp
  then have a: "\<not> directive_grammar ''demo.ipynb cells[2:]extra''"
    using search_grammar [of "''demo.ipynb cells[2:]extra''"] by simp
  have "blank ''  ''" by (simp add: blank_def is_space_def)
  then have b: "\<not> directive_grammar ''  ''" by (rule blank_not_grammar)
  show ?thesis
    using a b thebe_args_malformed [OF a] thebe_args_malformed [OF b] by simp
qed

text \<open>
  A bound that is a bare minus sign: \<^verbatim>\<open>FORMAT\<close> matches, and \<^verbatim>\<open>int('-')\<close> raises
  a \<^verbatim>\<open>ValueError\<close> of its own, without the expected syntax.
\<close>

lemma thebe_args_bare_minus:
  "thebe_args ''demo.ipynb cells[-:3]'' = Inl (invalid_literal ''-'')"
  by code_simp

subsection \<open>The order of the two clauses\<close>

text \<open>
  C4, as the specification states it, fails: with the language clause first the directive
  is rejected, with the cells clause first it is accepted.
\<close>

theorem thebe_args_language_first_rejected:
  "thebe_args ''demo.ipynb language[python] cells[2:5]''
     = Inl (ValueError (''Error processing input, expected syntax: '' @ SYNTAX))
   \<and> thebe_args ''demo.ipynb cells[2:5] language[python]''
     = Inr \<lparr>arg_src = ''demo.ipynb'', arg_start = 2, arg_end = Some 5,
            arg_language = Some ''python''\<rparr>"
  by code_simp

text \<open>
  C4, amended. The clauses have one order, cells then language: for every path, cell
  range and language the directive with the cells clause first yields the directive of
  these parts, and the directive with the language clause first does not match and is
  rejected as malformed.
\<close>

theorem thebe_args_clause_order:
  assumes "blank lead" "path_ok path" "blank sep1" "sep1 \<noteq> []" "blank sep2" "sep2 \<noteq> []"
    "lang_ok (Some l)" "blank trail"
  shows "thebe_args (lead @ path @ sep1 @ cells_clause c @ sep2 @ language_clause l @ trail)
           = Inr (directive_of path (Some c) (Some l))
         \<and> thebe_args (lead @ path @ sep1 @ language_clause l @ sep2 @ cells_clause c @ trail)
           = Inl (ValueError (''Error processing input, expected syntax: '' @ SYNTAX))"
proof
  from thebe_args_directive_text [OF assms, of "Some c"]
  show "thebe_args (lead @ path @ sep1 @ cells_clause c @ sep2 @ language_clause l @ trail)
          = Inr (directive_of path (Some c) (Some l))"
    by (simp add: directive_text_def)
  from search_language_first [OF assms(2,1,3,4,5,6)]
  show "thebe_args (lead @ path @ sep1 @ language_clause l @ sep2 @ cells_clause c @ trail)
          = Inl (ValueError (''Error processing input, expected syntax: '' @ SYNTAX))"
    by (simp add: thebe_args_def malformed_def)
qed

theorem thebe_args_clause_order_witness:
  "blank [] \<and> path_ok ''nb.ipynb'' \<and> blank '' '' \<and> '' '' \<noteq> [] \<and> lang_ok (Some ''r'')
   \<and> thebe_args ''nb.ipynb cells[-3:] language[r]''
       = Inr \<lparr>arg_src = ''nb.ipynb'', arg_start = - 3, arg_end = None, arg_language = Some ''r''\<rparr>
   \<and> thebe_args ''nb.ipynb language[r] cells[-3:]''
       = Inl (ValueError (''Error processing input, expected syntax: '' @ SYNTAX))"
proof -
  have h: "blank []" "path_ok ''nb.ipynb''" "blank '' ''" "'' '' \<noteq> []" "lang_ok (Some ''r'')"
    by (simp_all add: blank_def path_ok_def lang_ok_def is_space_def is_lower_def is_digit_def)
  have s: "bound_text (decimal (- 3)) = ''-3''" by code_simp
  show ?thesis
    using h thebe_args_clause_order [OF h(1) h(2) h(3) h(4) h(3) h(4) h(5) h(1), of "(Some (decimal (- 3)), None)"]
    by (simp add: directive_of_def cells_clause_def language_clause_def s bound_value_decimal)
qed

subsection \<open>A notebook that does not exist\<close>

text \<open>
  C7. When the arguments parse to a directive and nothing exists at
  \<^verbatim>\<open>os.path.join('content', NOTEBOOK_DIR, src)\<close>, \<^verbatim>\<open>thebe\<close> raises the
  \<^verbatim>\<open>ValueError\<close> whose message holds that path, whatever the file reader, the notebook
  parser and the exporter would do, and the stash is left as it was. For a relative source
  below a plain directory name the path is \<^verbatim>\<open>content/NOTEBOOK_DIR/src\<close>.
\<close>

theorem thebe_not_found:
  assumes "thebe_args markup = Inr d"
    and "\<not> path_exists w (os_path_join ''content'' [NOTEBOOK_DIR w, arg_src d])"
  shows "thebe w markup stash
           = (Inl (ValueError (''File '' @ os_path_join ''content'' [NOTEBOOK_DIR w, arg_src d]
                                 @ '' could not be found'')), stash)
         \<and> (NOTEBOOK_DIR w \<noteq> [] \<and> hd (NOTEBOOK_DIR w) \<noteq> CHR ''/''
              \<and> last (NOTEBOOK_DIR w) \<noteq> CHR ''/'' \<and> arg_src d \<noteq> [] \<and> hd (arg_src d) \<noteq> CHR ''/''
            \<longrightarrow> os_path_join ''content'' [NOTEBOOK_DIR w, arg_src d]
                  = ''content/'' @ NOTEBOOK_DIR w @ ''/'' @ arg_src d)"
proof
  show "thebe w markup stash
           = (Inl (ValueError (''File '' @ os_path_join ''content'' [NOTEBOOK_DIR w, arg_src d]
                                 @ '' could not be found'')), stash)"
    using assms by (simp add: thebe_def not_found_def Let_def)
  show "NOTEBOOK_DIR w \<noteq> [] \<and> hd (NOTEBOOK_DIR w) \<noteq> CHR ''/''
              \<and> last (NOTEBOOK_DIR w) \<noteq> CHR ''/'' \<and> arg_src d \<noteq> [] \<and> hd (arg_src d) \<noteq> CHR ''/''
            \<longrightarrow> os_path_join ''content'' [NOTEBOOK_DIR w, arg_src d]
                  = ''content/'' @ NOTEBOOK_DIR w @ ''/'' @ arg_src d"
    by (cases "NOTEBOOK_DIR w"; cases "arg_src d") (auto simp: os_path_join_def join_step_def)
qed

theorem thebe_not_found_witness:
  "thebe_args ''demo.ipynb cells[2:5]''
     = Inr \<lparr>arg_src = ''demo.ipynb'', arg_start = 2, arg_end = Some 5, arg_language = None\<rparr>
   \<and> \<not> path_exists example_world ''content/notebooks/demo.ipynb''
   \<and> thebe example_world ''demo.ipynb cells[2:5]'' []
     = (Inl (ValueError ''File content/notebooks/demo.ipynb could not be found''), [])"
proof -
  have a: "thebe_args ''demo.ipynb cells[2:5]''
     = Inr \<lparr>arg_src = ''demo.ipynb'', arg_start = 2, arg_end = Some 5, arg_language = None\<rparr>"
    by code_simp
  have b: "\<not> path_exists example_world (os_path_join ''content'' [NOTEBOOK_DIR example_world,
       arg_src \<lparr>arg_src = ''demo.ipynb'', arg_start = 2, arg_end = Some 5, arg_language = None\<rparr>])"
    by (simp add: os_path_join_def join_step_def example_world_def)
  show ?thesis
    using a b thebe_not_found [OF a b, of "[]"]
    by (simp add: os_path_join_def join_step_def example_world_def)
qed

subsection \<open>The store, slicing and \<^verbatim>\<open>preprocess\<close>\<close>

lemma lookup_append: "a < length h \<Longrightarrow> lookup (h @ ext) a = lookup h a"
  by (simp add: lookup_def nth_append)

lemma lookup_Some_less: "lookup h a = Some ob \<Longrightarrow> a < length h"
  by (simp add: lookup_def split: if_splits)

lemma lookup_new: "lookup (h @ ob # ext) (length h) = Some ob"
  by (simp add: lookup_def)

lemma dict_at_less: "dict_at h a = Some kv \<Longrightarrow> a < length h"
  by (auto simp: dict_at_def dest: lookup_Some_less split: option.splits pyobj.splits)

lemma dict_at_append: "dict_at h a = Some kv \<Longrightarrow> dict_at (h @ ext) a = Some kv"
  using dict_at_less [of h a kv] by (simp add: dict_at_def lookup_append)

lemma those_dicts_append: "those_dicts h as = Some cs \<Longrightarrow> those_dicts (h @ ext) as = Some cs"
  by (induction as arbitrary: cs) (auto simp: dict_at_append split: option.splits)

lemma those_dicts_length: "those_dicts h as = Some cs \<Longrightarrow> length cs = length as"
  by (induction as arbitrary: cs) (auto split: option.splits)

lemma copy_dict_closed: "dict_at h a = Some kv \<Longrightarrow> copy_dict h a = Some (h @ [Dict kv], length h)"
  by (auto simp: copy_dict_def dict_at_def alloc_def split: option.splits pyobj.splits)

lemma copy_each_closed:
  "those_dicts h as = Some cs \<Longrightarrow>
   copy_each copy_dict h as = Some (h @ map Dict cs, [length h..<length h + length as])"
proof (induction as arbitrary: h cs)
  case Nil
  then show ?case by simp
next
  case (Cons a as)
  from Cons.prems obtain kv kvs where d: "dict_at h a = Some kv" "those_dicts h as = Some kvs"
    "cs = kv # kvs" by (auto split: option.splits)
  from d(2) have "those_dicts (h @ [Dict kv]) as = Some kvs" by (rule those_dicts_append)
  from Cons.IH [OF this]
  have "copy_each copy_dict (h @ [Dict kv]) as
          = Some (h @ map Dict cs, [Suc (length h)..<Suc (length h) + length as])"
    by (simp add: d(3) del: upt_Suc)
  moreover have "[length h..<length h + length (a # as)]
          = length h # [Suc (length h)..<Suc (length h) + length as]"
    by (simp add: upt_conv_Cons del: upt_Suc)
  ultimately show ?case
    by (simp add: copy_dict_closed [OF d(1)] del: upt_Suc)
qed

lemma deepcopy_closed:
  assumes "cells_of h nb = Some cs" "metadata_of h nb = Some md"
  shows "deepcopy h nb = Some (h @ map Dict cs @
       [PyList [length h..<length h + length cs], Dict md,
        NotebookNode (Some (length h + length cs)) None (length h + length cs + 1)],
       length h + length cs + 2)"
proof -
  from assms obtain cl mda as where nb: "lookup h nb = Some (NotebookNode (Some cl) None mda)"
    "lookup h cl = Some (PyList as)" "those_dicts h as = Some cs" "dict_at h mda = Some md"
    by (auto simp: cells_of_def cell_addrs_def metadata_of_def split: option.splits pyobj.splits)
  have len: "length as = length cs" using nb(3) by (simp add: those_dicts_length)
  have 1: "copy_list copy_dict h cl = Some (h @ map Dict cs @ [PyList [length h..<length h + length cs]],
            length h + length cs)"
    using nb(2) copy_each_closed [OF nb(3)] by (simp add: copy_list_def alloc_def len)
  have 2: "copy_dict (h @ map Dict cs @ [PyList [length h..<length h + length cs]]) mda
      = Some ((h @ map Dict cs @ [PyList [length h..<length h + length cs]]) @ [Dict md], length h + length cs + 1)"
    using copy_dict_closed [OF dict_at_append [OF nb(4)], of "map Dict cs @ [PyList [length h..<length h + length cs]]"]
    by simp
  show ?thesis
    using nb(1) 1 2 by (simp add: deepcopy_def alloc_def)
qed

lemma preprocess_closed:
  assumes "3 \<le> ver" "cells_of h nb = Some cs" "metadata_of h nb = Some md"
  shows "preprocess ver start stop h nb res
     = Some (copied h cs md (py_slice [length h..<length h + length cs] start stop),
             Inr (length h + length cs + 2, res))"
proof -
  let ?n = "length h + length cs"
  let ?h1 = "h @ map Dict cs @ [PyList [length h..<?n], Dict md, NotebookNode (Some ?n) None (?n + 1)]"
  have a: "lookup ?h1 (?n + 2) = Some (NotebookNode (Some ?n) None (?n + 1))"
    by (simp add: lookup_def nth_append)
  have b: "lookup ?h1 ?n = Some (PyList [length h..<?n])"
    by (simp add: lookup_def nth_append)
  have c: "(?h1 @ [PyList sel])[?n + 2 := ob] = h @ map Dict cs @ [PyList [length h..<?n], Dict md, ob, PyList sel]" for sel ob
    by (simp add: list_update_append)
  show ?thesis
    using assms(1) deepcopy_closed [OF assms(2,3)] a b c
    by (simp add: preprocess_def alloc_def copied_def)
qed


lemma adjust_index_range: "0 \<le> n \<Longrightarrow> 0 \<le> adjust_index n i \<and> adjust_index n i \<le> n"
  by (simp add: adjust_index_def)

lemma low_of_range: "0 \<le> low_of xs start \<and> low_of xs start \<le> int (length xs)"
  using adjust_index_range [of "int (length xs)"] by (cases start) (simp_all add: low_of_def)

lemma high_of_range: "0 \<le> high_of xs stop \<and> high_of xs stop \<le> int (length xs)"
  using adjust_index_range [of "int (length xs)"] by (cases stop) (simp_all add: high_of_def)

lemma py_slice_take_drop:
  "py_slice xs start stop = take (nat (high_of xs stop - low_of xs start)) (drop (nat (low_of xs start)) xs)"
proof -
  let ?lo = "low_of xs start" and ?hi = "high_of xs stop"
  have r: "0 \<le> ?lo" "?lo \<le> int (length xs)" "0 \<le> ?hi" "?hi \<le> int (length xs)"
    using low_of_range [of xs start] high_of_range [of xs stop] by auto
  show ?thesis
  proof (cases "?hi - ?lo \<le> 0")
    case True
    then show ?thesis by (simp add: py_slice_def Let_def low_of_def high_of_def)
  next
    case False
    have "map (\<lambda>k. xs ! (nat ?lo + k)) [0..<nat (?hi - ?lo)] = take (nat (?hi - ?lo)) (drop (nat ?lo) xs)"
      using r False by (intro nth_equalityI) auto
    with False show ?thesis by (simp add: py_slice_def Let_def low_of_def high_of_def)
  qed
qed

lemma adjust_clamp: "0 \<le> n \<Longrightarrow> clamp_index n (Some i) d = adjust_index n i"
  by (simp add: clamp_index_def adjust_index_def Let_def)

lemma slice_indices_low_high:
  "slice_indices start stop (length xs) = (low_of xs start, high_of xs stop, 1)"
  by (cases start; cases stop) (simp_all add: slice_indices_def low_of_def high_of_def adjust_clamp, simp_all add: clamp_index_def)

lemma py_slice_length:
  "length (py_slice xs start stop) = range_len (slice_indices start stop (length xs))"
  using low_of_range [of xs start] high_of_range [of xs stop]
  by (auto simp: py_slice_take_drop slice_indices_low_high)

lemma py_slice_nth:
  assumes "k < length (py_slice xs start stop)"
  shows "py_slice xs start stop ! k = xs ! (nat (fst (slice_indices start stop (length xs))) + k)"
proof -
  have "nat (low_of xs start) \<le> length xs" using low_of_range [of xs start] by linarith
  with assms show ?thesis
    by (simp add: py_slice_take_drop slice_indices_low_high)
qed

lemma low_of_map: "low_of (map f xs) start = low_of xs start"
  by (cases start) (simp_all add: low_of_def)

lemma high_of_map: "high_of (map f xs) stop = high_of xs stop"
  by (cases stop) (simp_all add: high_of_def)

lemma py_slice_map: "py_slice (map f xs) start stop = map f (py_slice xs start stop)"
  by (simp add: py_slice_take_drop low_of_map high_of_map take_map drop_map)

lemma py_slice_subset: "set (py_slice xs start stop) \<subseteq> set xs"
  by (metis py_slice_take_drop set_drop_subset set_take_subset subset_trans)

lemma py_slice_empty:
  "fst (snd (slice_indices start stop (length xs))) \<le> fst (slice_indices start stop (length xs))
   \<Longrightarrow> py_slice xs start stop = []"
  by (simp add: py_slice_take_drop slice_indices_low_high)

lemma py_slice_same_sign:
  assumes "j \<le> i" "(0 \<le> j \<and> 0 \<le> i) \<or> (j < 0 \<and> i < 0)"
  shows "py_slice xs (Some i) (Some j) = []"
  using assms by (auto simp: py_slice_take_drop low_of_def high_of_def adjust_index_def)

lemma py_slice_full: "py_slice xs (Some 0) None = xs"
  by (simp add: py_slice_take_drop low_of_def high_of_def adjust_index_def)

lemma py_slice_0_0: "py_slice xs (Some 0) (Some 0) = []"
  by (simp add: py_slice_take_drop low_of_def high_of_def adjust_index_def)

lemma py_slice_last_two: "py_slice xs (Some (- 2)) None = drop (length xs - 2) xs"
proof -
  have "nat (int (length xs) - 2) = length xs - 2" by simp
  then show ?thesis
    by (auto simp: py_slice_take_drop low_of_def high_of_def adjust_index_def)
qed

text \<open>What the store holds after \<open>preprocess\<close>.\<close>

lemma copied_old: "a < length h \<Longrightarrow> lookup (copied h cs md sel) a = lookup h a"
  by (simp add: copied_def lookup_append)

lemma copied_length: "length (copied h cs md sel) = length h + length cs + 4"
  by (simp add: copied_def)

lemma copied_cell:
  "i < length cs \<Longrightarrow> dict_at (copied h cs md sel) (length h + i) = Some (cs ! i)"
  by (simp add: copied_def dict_at_def lookup_def nth_append)

lemma copied_node:
  "a = length h + length cs + 2 \<Longrightarrow>
   lookup (copied h cs md sel) a
     = Some (NotebookNode (Some (length h + length cs + 3)) None (length h + length cs + 1))"
  by (simp add: copied_def lookup_def nth_append)

lemma copied_list:
  "a = length h + length cs + 3 \<Longrightarrow> lookup (copied h cs md sel) a = Some (PyList sel)"
  by (simp add: copied_def lookup_def nth_append)

lemma copied_metadata:
  "a = length h + length cs + 1 \<Longrightarrow> dict_at (copied h cs md sel) a = Some md"
  by (simp add: copied_def dict_at_def lookup_def nth_append)

lemma those_dicts_map:
  "\<forall>a\<in>set as. dict_at h a = Some (f a) \<Longrightarrow> those_dicts h as = Some (map f as)"
  by (induction as) auto

lemma copied_cells_of:
  assumes "nbc = length h + length cs + 2"
  shows "cells_of (copied h cs md (py_slice [length h..<length h + length cs] start stop)) nbc
           = Some (py_slice cs start stop)"
proof -
  let ?sel = "py_slice [length h..<length h + length cs] start stop"
  let ?H = "copied h cs md ?sel"
  let ?f = "\<lambda>a. cs ! (a - length h)"
  have "\<forall>a\<in>set ?sel. dict_at ?H a = Some (?f a)"
  proof
    fix a assume "a \<in> set ?sel"
    with py_slice_subset [of "[length h..<length h + length cs]" start stop]
    have "a \<in> set [length h..<length h + length cs]" by auto
    then obtain i where "a = length h + i" "i < length cs"
      by (metis add_diff_inverse_nat atLeastLessThan_iff nat_add_left_cancel_less not_less set_upt)
    then show "dict_at ?H a = Some (?f a)" by (simp add: copied_cell)
  qed
  then have "those_dicts ?H ?sel = Some (map ?f ?sel)" by (rule those_dicts_map)
  moreover have "map ?f [length h..<length h + length cs] = cs"
    by (intro nth_equalityI) auto
  then have "map ?f ?sel = py_slice cs start stop"
    by (metis py_slice_map)
  ultimately show ?thesis
    by (simp add: assms cells_of_def cell_addrs_def copied_node copied_list)
qed

lemma copied_metadata_of:
  "nbc = length h + length cs + 2 \<Longrightarrow> metadata_of (copied h cs md sel) nbc = Some md"
  by (simp add: metadata_of_def copied_node copied_metadata)

lemma copied_objects_of:
  "nbc = length h + length cs + 2 \<Longrightarrow>
   objects_of (copied h cs md sel) nbc
     = nbc # (length h + length cs + 1) # (length h + length cs + 3) # sel"
  by (simp add: objects_of_def copied_node copied_list)

text \<open>A notebook depends only on the part of the store it was read from.\<close>

lemma those_dicts_agree:
  "those_dicts h as = Some cs \<Longrightarrow> \<forall>a<length h. lookup h2 a = lookup h a \<Longrightarrow> those_dicts h2 as = Some cs"
proof (induction as arbitrary: cs)
  case Nil
  then show ?case by simp
next
  case (Cons a as)
  from Cons.prems(1) obtain kv kvs where d: "dict_at h a = Some kv" "those_dicts h as = Some kvs"
    "cs = kv # kvs" by (auto split: option.splits)
  from d(1) Cons.prems(2) have "dict_at h2 a = Some kv"
    using dict_at_less [OF d(1)] by (simp add: dict_at_def)
  with Cons.IH [OF d(2) Cons.prems(2)] d(3) show ?case by simp
qed

lemma cells_of_agree:
  assumes "cells_of h nb = Some cs" "\<forall>a<length h. lookup h2 a = lookup h a"
  shows "cells_of h2 nb = Some cs"
proof -
  from assms(1) obtain cl mda as where nb: "lookup h nb = Some (NotebookNode (Some cl) None mda)"
    "lookup h cl = Some (PyList as)" "those_dicts h as = Some cs"
    by (auto simp: cells_of_def cell_addrs_def split: option.splits pyobj.splits)
  from nb(1,2) assms(2) have "lookup h2 nb = Some (NotebookNode (Some cl) None mda)"
    "lookup h2 cl = Some (PyList as)"
    using lookup_Some_less by metis+
  with those_dicts_agree [OF nb(3) assms(2)] show ?thesis
    by (simp add: cells_of_def cell_addrs_def)
qed

lemma metadata_of_agree:
  assumes "metadata_of h nb = Some md" "\<forall>a<length h. lookup h2 a = lookup h a"
  shows "metadata_of h2 nb = Some md"
proof -
  from assms(1) obtain c w mda where nb: "lookup h nb = Some (NotebookNode c w mda)" "dict_at h mda = Some md"
    by (auto simp: metadata_of_def split: option.splits pyobj.splits)
  from nb(1) assms(2) have "lookup h2 nb = Some (NotebookNode c w mda)"
    using lookup_Some_less by metis
  moreover from nb(2) assms(2) have "dict_at h2 mda = Some md"
    using dict_at_less [OF nb(2)] by (simp add: dict_at_def)
  ultimately show ?thesis by (simp add: metadata_of_def)
qed

lemma lookup_update_other: "a \<noteq> b \<Longrightarrow> lookup (h[b := ob]) a = lookup h a"
  by (simp add: lookup_def)

lemma selected_cells_slice:
  assumes "3 \<le> ver" "cells_of h nb = Some cs" "metadata_of h nb = Some md"
  shows "selected_cells ver start stop h nb res = Some (py_slice cs start stop)"
  by (simp add: selected_cells_def preprocess_closed [OF assms] copied_cells_of)

lemma example_store_notebook:
  "cells_of example_store 5 = Some [[(''source'', ''a'')], [(''source'', ''b'')], [(''source'', ''c'')]]"
  "metadata_of example_store 5 = Some [(''kernel'', ''python'')]"
  "lookup example_store 6 = Some (Dict [(''css'', ''x'')])"
  by code_simp+

subsection \<open>The cell-range selector\<close>

text \<open>
  C2, as the specification states it, fails in one part: a start that is not less than the
  end does not always give an empty selection. With three cells, \<^verbatim>\<open>cells[0:-1]\<close>
  (the range of the specification's own example \<^verbatim>\<open>cells[:-1]\<close>) has start 0 and
  end -1 and selects the first two cells.
\<close>

theorem subcell_start_not_before_end:
  "(- 1 :: int) \<le> 0
   \<and> selected_cells 3 (Some 0) (Some (- 1)) example_store 5 6
       = Some [[(''source'', ''a'')], [(''source'', ''b'')]]"
  by code_simp

text \<open>
  C2, amended. For a format 4 notebook with cells \<open>cs\<close> and any optional bounds,
  \<^verbatim>\<open>preprocess\<close> returns a notebook whose cells are the Python slice of \<open>cs\<close>:
  their number is \<^verbatim>\<open>len(range(*slice(start, end).indices(N)))\<close>, the \<open>k\<close>-th of
  them is the cell at the resolved start plus \<open>k\<close>, both resolved bounds lie between 0 and
  \<open>N\<close>, the selection is empty when the resolved end is not after the resolved start (so
  whenever \<open>start \<ge> end\<close> and the two are both non-negative or both negative),
  \<^verbatim>\<open>[0:0]\<close> selects nothing and \<^verbatim>\<open>[-2:]\<close> the last two cells.
\<close>

theorem subcell_selects_slice:
  assumes "3 \<le> ver" "cells_of h nb = Some cs" "metadata_of h nb = Some md"
  shows "selected_cells ver start stop h nb res = Some (py_slice cs start stop)
    \<and> length (py_slice cs start stop) = range_len (slice_indices start stop (length cs))
    \<and> (\<forall>k<length (py_slice cs start stop).
          py_slice cs start stop ! k = cs ! (nat (fst (slice_indices start stop (length cs))) + k))
    \<and> 0 \<le> fst (slice_indices start stop (length cs))
    \<and> fst (slice_indices start stop (length cs)) \<le> int (length cs)
    \<and> 0 \<le> fst (snd (slice_indices start stop (length cs)))
    \<and> fst (snd (slice_indices start stop (length cs))) \<le> int (length cs)
    \<and> (fst (snd (slice_indices start stop (length cs))) \<le> fst (slice_indices start stop (length cs))
         \<longrightarrow> selected_cells ver start stop h nb res = Some [])
    \<and> (\<forall>i j. j \<le> i \<and> (0 \<le> j \<or> i < 0) \<longrightarrow> selected_cells ver (Some i) (Some j) h nb res = Some [])
    \<and> selected_cells ver (Some 0) (Some 0) h nb res = Some []
    \<and> selected_cells ver (Some (- 2)) None h nb res = Some (drop (length cs - 2) cs)"
proof -
  note sel = selected_cells_slice [OF assms]
  have rng: "0 \<le> fst (slice_indices start stop (length cs))"
    "fst (slice_indices start stop (length cs)) \<le> int (length cs)"
    "0 \<le> fst (snd (slice_indices start stop (length cs)))"
    "fst (snd (slice_indices start stop (length cs))) \<le> int (length cs)"
    using low_of_range [of cs start] high_of_range [of cs stop]
    by (simp_all add: slice_indices_low_high)
  have same: "\<forall>i j. j \<le> i \<and> (0 \<le> j \<or> i < 0) \<longrightarrow> selected_cells ver (Some i) (Some j) h nb res = Some []"
    by (auto simp: sel intro: py_slice_same_sign)
  show ?thesis
    using rng same
    by (simp add: sel py_slice_length py_slice_nth py_slice_empty py_slice_0_0 py_slice_last_two
        del: range_len.simps)
qed

theorem subcell_selects_slice_witness:
  "(3::nat) \<le> 3
   \<and> cells_of example_store 5 = Some [[(''source'', ''a'')], [(''source'', ''b'')], [(''source'', ''c'')]]
   \<and> metadata_of example_store 5 = Some [(''kernel'', ''python'')]
   \<and> selected_cells 3 (Some 1) (Some 7) example_store 5 6
       = Some [[(''source'', ''b'')], [(''source'', ''c'')]]
   \<and> range_len (slice_indices (Some 1) (Some 7) 3) = 2
   \<and> selected_cells 3 (Some (- 2)) None example_store 5 6
       = Some [[(''source'', ''b'')], [(''source'', ''c'')]]
   \<and> selected_cells 3 (Some 0) (Some 0) example_store 5 6 = Some []"
proof -
  have v: "(3::nat) \<le> 3" by simp
  have p: "py_slice [[(''source'', ''a'')], [(''source'', ''b'')], [(''source'', ''c'')]] (Some 1) (Some 7)
             = [[(''source'', ''b'')], [(''source'', ''c'')]]"
    by code_simp
  have r: "range_len (slice_indices (Some 1) (Some 7) 3) = 2" by code_simp
  show ?thesis
    using v r example_store_notebook(1,2)
      subcell_selects_slice [OF v example_store_notebook(1,2), of "Some 1" "Some 7" 6]
    by (simp add: p del: range_len.simps)
qed

text \<open>
  C5. \<^verbatim>\<open>preprocess\<close> on a format 4 notebook returns normally and changes no object
  that existed before, so the cells and the metadata of its input are what they were. What
  it returns is a notebook node with a cell list and a metadata dictionary of its own: the
  node, the list, the cells in it and the metadata are all newly allocated, the cells are
  the selected ones and the metadata has the contents of the input's. So whatever is written
  to the objects of the returned notebook, the cells and the metadata of the input stay
  the same.
\<close>

theorem subcell_leaves_input:
  assumes "3 \<le> ver" "cells_of h nb = Some cs" "metadata_of h nb = Some md"
  shows "\<exists>h' nbc cl mda as. preprocess ver start stop h nb res = Some (h', Inr (nbc, res))
    \<and> (\<forall>a<length h. lookup h' a = lookup h a)
    \<and> cells_of h' nb = Some cs \<and> metadata_of h' nb = Some md
    \<and> lookup h' nbc = Some (NotebookNode (Some cl) None mda)
    \<and> lookup h' cl = Some (PyList as)
    \<and> those_dicts h' as = Some (py_slice cs start stop)
    \<and> dict_at h' mda = Some md
    \<and> objects_of h' nbc = nbc # mda # cl # as
    \<and> (\<forall>a\<in>set (nbc # mda # cl # as). length h \<le> a \<and> a < length h')
    \<and> (\<forall>a\<in>set (nbc # mda # cl # as). \<forall>ob.
          cells_of (h'[a := ob]) nb = Some cs \<and> metadata_of (h'[a := ob]) nb = Some md)
    \<and> (\<forall>h''. (\<forall>a. a \<notin> set (nbc # mda # cl # as) \<longrightarrow> lookup h'' a = lookup h' a)
          \<longrightarrow> cells_of h'' nb = Some cs \<and> metadata_of h'' nb = Some md)"
proof -
  let ?sel = "py_slice [length h..<length h + length cs] start stop"
  let ?H = "copied h cs md ?sel"
  let ?nbc = "length h + length cs + 2"
  let ?cl = "length h + length cs + 3"
  let ?mda = "length h + length cs + 1"
  let ?objs = "?nbc # ?mda # ?cl # ?sel"
  have old: "\<forall>a<length h. lookup ?H a = lookup h a" by (simp add: copied_old)
  have selr: "\<forall>a\<in>set ?sel. length h \<le> a \<and> a < length h + length cs"
    using py_slice_subset [of "[length h..<length h + length cs]" start stop] by auto
  have fresh: "\<forall>a\<in>set ?objs. length h \<le> a \<and> a < length ?H"
    using selr by (auto simp: copied_length)
  have upd: "\<forall>b<length h. lookup (?H[a := ob]) b = lookup h b" if "length h \<le> a" for a ob
    using that by (simp add: lookup_update_other copied_old)
  have indep: "\<forall>a\<in>set ?objs. \<forall>ob.
          cells_of (?H[a := ob]) nb = Some cs \<and> metadata_of (?H[a := ob]) nb = Some md"
    using fresh upd cells_of_agree [OF assms(2)] metadata_of_agree [OF assms(3)] by blast
  have any: "\<forall>h''. (\<forall>a. a \<notin> set ?objs \<longrightarrow> lookup h'' a = lookup ?H a)
          \<longrightarrow> cells_of h'' nb = Some cs \<and> metadata_of h'' nb = Some md"
  proof (intro allI impI)
    fix h'' assume d: "\<forall>a. a \<notin> set ?objs \<longrightarrow> lookup h'' a = lookup ?H a"
    have "\<forall>a<length h. lookup h'' a = lookup h a"
    proof (intro allI impI)
      fix a assume a: "a < length h"
      with fresh have "a \<notin> set ?objs" by auto
      with d old a show "lookup h'' a = lookup h a" by simp
    qed
    then show "cells_of h'' nb = Some cs \<and> metadata_of h'' nb = Some md"
      using cells_of_agree [OF assms(2)] metadata_of_agree [OF assms(3)] by blast
  qed
  have node: "lookup ?H ?nbc = Some (NotebookNode (Some ?cl) None ?mda)"
    by (rule copied_node) simp
  have lst: "lookup ?H ?cl = Some (PyList ?sel)" by (rule copied_list) simp
  have mdc: "dict_at ?H ?mda = Some md" by (rule copied_metadata) simp
  have c0: "cells_of ?H ?nbc = Some (py_slice cs start stop)" by (rule copied_cells_of) simp
  have cells: "those_dicts ?H ?sel = Some (py_slice cs start stop)"
    using c0 unfolding cells_of_def cell_addrs_def node by (simp add: lst)
  have objs: "objects_of ?H ?nbc = ?objs" by (rule copied_objects_of) simp
  show ?thesis
    using preprocess_closed [OF assms, of start stop res] old fresh indep any node lst mdc cells objs
      cells_of_agree [OF assms(2) old] metadata_of_agree [OF assms(3) old]
    by blast
qed

theorem subcell_leaves_input_witness:
  "(3::nat) \<le> 3
   \<and> cells_of example_store 5 = Some [[(''source'', ''a'')], [(''source'', ''b'')], [(''source'', ''c'')]]
   \<and> metadata_of example_store 5 = Some [(''kernel'', ''python'')]
   \<and> (\<exists>h' nbc cl mda as. preprocess 3 (Some 1) None example_store 5 6 = Some (h', Inr (nbc, 6))
        \<and> (\<forall>a<length example_store. lookup h' a = lookup example_store a)
        \<and> cells_of h' 5 = Some [[(''source'', ''a'')], [(''source'', ''b'')], [(''source'', ''c'')]]
        \<and> metadata_of h' 5 = Some [(''kernel'', ''python'')]
        \<and> lookup h' nbc = Some (NotebookNode (Some cl) None mda)
        \<and> lookup h' cl = Some (PyList as)
        \<and> those_dicts h' as = Some [[(''source'', ''b'')], [(''source'', ''c'')]]
        \<and> dict_at h' mda = Some [(''kernel'', ''python'')]
        \<and> objects_of h' nbc = nbc # mda # cl # as
        \<and> (\<forall>a\<in>set (nbc # mda # cl # as). length example_store \<le> a \<and> a < length h')
        \<and> (\<forall>a\<in>set (nbc # mda # cl # as). \<forall>ob.
              cells_of (h'[a := ob]) 5 = Some [[(''source'', ''a'')], [(''source'', ''b'')], [(''source'', ''c'')]]
              \<and> metadata_of (h'[a := ob]) 5 = Some [(''kernel'', ''python'')])
        \<and> (\<forall>h''. (\<forall>a. a \<notin> set (nbc # mda # cl # as) \<longrightarrow> lookup h'' a = lookup h' a)
              \<longrightarrow> cells_of h'' 5 = Some [[(''source'', ''a'')], [(''source'', ''b'')], [(''source'', ''c'')]]
                \<and> metadata_of h'' 5 = Some [(''kernel'', ''python'')]))"
proof -
  have v: "(3::nat) \<le> 3" by simp
  have p: "py_slice [[(''source'', ''a'')], [(''source'', ''b'')], [(''source'', ''c'')]] (Some 1) None
             = [[(''source'', ''b'')], [(''source'', ''c'')]]"
    by code_simp
  show ?thesis
    using v example_store_notebook(1,2)
      subcell_leaves_input [OF v example_store_notebook(1,2), of "Some 1" None 6, unfolded p]
    by simp
qed

text \<open>
  C10. \<^verbatim>\<open>preprocess\<close> returns the resources it was given, the same object, and
  that object is in the store as it was before.
\<close>

theorem subcell_returns_resources:
  assumes "3 \<le> ver" "cells_of h nb = Some cs" "metadata_of h nb = Some md" "lookup h res = Some ob"
  shows "\<exists>h' nbc. preprocess ver start stop h nb res = Some (h', Inr (nbc, res))
    \<and> lookup h' res = Some ob"
  using preprocess_closed [OF assms(1,2,3), of start stop res] assms(4)
    copied_old [OF lookup_Some_less [OF assms(4)]]
  by simp

theorem subcell_returns_resources_witness:
  "(3::nat) \<le> 3
   \<and> cells_of example_store 5 = Some [[(''source'', ''a'')], [(''source'', ''b'')], [(''source'', ''c'')]]
   \<and> metadata_of example_store 5 = Some [(''kernel'', ''python'')]
   \<and> lookup example_store 6 = Some (Dict [(''css'', ''x'')])
   \<and> (\<exists>h' nbc. preprocess 3 (Some 0) (Some 2) example_store 5 6 = Some (h', Inr (nbc, 6))
        \<and> lookup h' 6 = Some (Dict [(''css'', ''x'')]))"
proof -
  have v: "(3::nat) \<le> 3" by simp
  show ?thesis
    using v example_store_notebook
      subcell_returns_resources [OF v example_store_notebook, of "Some 0" "Some 2"]
    by simp
qed

subsection \<open>The full range\<close>

text \<open>
  C6. A directive with the clause \<^verbatim>\<open>cells[:]\<close> parses to the same arguments as the
  directive without a cells clause (start 0, end \<^verbatim>\<open>None\<close>), so \<^verbatim>\<open>thebe\<close>
  does the same with both; and selecting with these bounds returns all cells of the
  notebook, in order.
\<close>

lemma thebe_cong: "thebe_args m1 = thebe_args m2 \<Longrightarrow> thebe w m1 stash = thebe w m2 stash"
  by (simp add: thebe_def)

theorem full_range_is_no_range:
  assumes "blank lead" "path_ok path" "blank sep1" "sep1 \<noteq> []" "blank sep2" "sep2 \<noteq> []"
    "lang_ok lang" "blank trail"
    and "3 \<le> ver" "cells_of h nb = Some cs" "metadata_of h nb = Some md"
  shows "thebe_args (directive_text lead path sep1 (Some (None, None)) sep2 lang trail)
           = thebe_args (directive_text lead path sep1 None sep2 lang trail)
    \<and> thebe_args (directive_text lead path sep1 None sep2 lang trail)
           = Inr \<lparr>arg_src = path, arg_start = 0, arg_end = None, arg_language = lang\<rparr>
    \<and> thebe w (directive_text lead path sep1 (Some (None, None)) sep2 lang trail) stash
           = thebe w (directive_text lead path sep1 None sep2 lang trail) stash
    \<and> selected_cells ver (Some 0) None h nb res = Some cs"
proof -
  note p = thebe_args_directive_text [OF assms(1-8)]
  have e: "thebe_args (directive_text lead path sep1 (Some (None, None)) sep2 lang trail)
           = thebe_args (directive_text lead path sep1 None sep2 lang trail)"
    by (simp add: p directive_of_def)
  show ?thesis
    using e thebe_cong [OF e] selected_cells_slice [OF assms(9-11), of "Some 0" None res]
    by (simp add: p directive_of_def py_slice_full)
qed

theorem full_range_is_no_range_witness:
  "blank [] \<and> path_ok ''demo.ipynb'' \<and> blank '' '' \<and> '' '' \<noteq> [] \<and> lang_ok None \<and> (3::nat) \<le> 3
   \<and> cells_of example_store 5 = Some [[(''source'', ''a'')], [(''source'', ''b'')], [(''source'', ''c'')]]
   \<and> metadata_of example_store 5 = Some [(''kernel'', ''python'')]
   \<and> thebe_args ''demo.ipynb cells[:]'' = thebe_args ''demo.ipynb''
   \<and> thebe_args ''demo.ipynb''
       = Inr \<lparr>arg_src = ''demo.ipynb'', arg_start = 0, arg_end = None, arg_language = None\<rparr>
   \<and> thebe example_world ''demo.ipynb cells[:]'' [] = thebe example_world ''demo.ipynb'' []
   \<and> selected_cells 3 (Some 0) None example_store 5 6
       = Some [[(''source'', ''a'')], [(''source'', ''b'')], [(''source'', ''c'')]]"
proof -
  have h: "blank []" "path_ok ''demo.ipynb''" "blank '' ''" "'' '' \<noteq> []" "lang_ok None"
    by (simp_all add: blank_def path_ok_def lang_ok_def is_space_def)
  have v: "(3::nat) \<le> 3" by simp
  have e: "directive_text [] ''demo.ipynb'' '' '' (Some (None, None)) '' '' None [] = ''demo.ipynb cells[:]''"
    "directive_text [] ''demo.ipynb'' '' '' None '' '' None [] = ''demo.ipynb''"
    by (simp_all add: directive_text_def cells_clause_def)
  note t = full_range_is_no_range [OF h(1) h(2) h(3) h(4) h(3) h(4) h(5) h(1) v example_store_notebook(1,2),
        of example_world "[]" 6, unfolded e]
  show ?thesis
    using h v example_store_notebook(1,2) t by blast
qed

subsection \<open>The highlighter\<close>

text \<open>
  C9. The markup itself is made by the highlighter of nbconvert and pygments. Given that
  this highlighter puts the CSS class of the formatter it is called with on the markup it
  returns, and that it has the lexer \<^verbatim>\<open>ipython\<close>: whatever markup
  \<^verbatim>\<open>custom_highlighter\<close> returns carries the class \<^verbatim>\<open>highlight-ipynb\<close>, which
  is not the class \<^verbatim>\<open>highlight\<close> of ordinary code blocks; for a language that is
  \<^verbatim>\<open>None\<close> or empty it does return markup, that of the lexer \<^verbatim>\<open>ipython\<close>;
  and so it does for every other language whose lexer the highlighter has.
\<close>

theorem custom_highlighter_class_and_default:
  assumes "honours_class hl" "knows_lexer hl ''ipython''"
  shows "(\<forall>out. custom_highlighter hl source language = Inr out \<longrightarrow> has_class ''highlight-ipynb'' out)
    \<and> (language = None \<or> language = Some [] \<longrightarrow>
         (\<exists>out. custom_highlighter hl source language = Inr out
            \<and> hl source (HtmlFormatter ''highlight-ipynb'') ''ipython'' = Inr out
            \<and> has_class ''highlight-ipynb'' out))
    \<and> (\<forall>l. language = Some l \<and> l \<noteq> [] \<and> knows_lexer hl l \<longrightarrow>
         (\<exists>out. custom_highlighter hl source language = Inr out
            \<and> hl source (HtmlFormatter ''highlight-ipynb'') l = Inr out
            \<and> has_class ''highlight-ipynb'' out))
    \<and> ''highlight-ipynb'' \<noteq> ''highlight''"
proof -
  have cls: "has_class ''highlight-ipynb'' out"
    if "hl source (HtmlFormatter ''highlight-ipynb'') l = Inr out" for l out
    using that assms(1) unfolding honours_class_def HtmlFormatter_def by fastforce
  have known: "\<exists>out. hl source (HtmlFormatter ''highlight-ipynb'') l = Inr out" if "knows_lexer hl l" for l
    using that unfolding knows_lexer_def by blast
  have 1: "\<forall>out. custom_highlighter hl source language = Inr out \<longrightarrow> has_class ''highlight-ipynb'' out"
    using cls by (simp add: custom_highlighter_def)
  have both: "\<exists>out. hl source (HtmlFormatter ''highlight-ipynb'') l = Inr out
                 \<and> has_class ''highlight-ipynb'' out" if "knows_lexer hl l" for l
    using known [OF that] cls by blast
  have 2: "language = None \<or> language = Some [] \<longrightarrow>
         (\<exists>out. custom_highlighter hl source language = Inr out
            \<and> hl source (HtmlFormatter ''highlight-ipynb'') ''ipython'' = Inr out
            \<and> has_class ''highlight-ipynb'' out)"
    using both [OF assms(2)] by (auto simp: custom_highlighter_def)
  have 3: "\<forall>l. language = Some l \<and> l \<noteq> [] \<and> knows_lexer hl l \<longrightarrow>
         (\<exists>out. custom_highlighter hl source language = Inr out
            \<and> hl source (HtmlFormatter ''highlight-ipynb'') l = Inr out
            \<and> has_class ''highlight-ipynb'' out)"
    using both by (auto simp: custom_highlighter_def)
  from 1 2 3 show ?thesis by simp
qed

theorem custom_highlighter_class_and_default_witness:
  "honours_class example_highlighter \<and> knows_lexer example_highlighter ''ipython''
   \<and> custom_highlighter example_highlighter ''x = 1'' (Some [])
       = Inr (''<div class='' @ [CHR 0x22] @ ''highlight-ipynb'' @ [CHR 0x22] @ ''><pre>ipython:x = 1</pre></div>'')
   \<and> has_class ''highlight-ipynb''
        (''<div class='' @ [CHR 0x22] @ ''highlight-ipynb'' @ [CHR 0x22] @ ''><pre>ipython:x = 1</pre></div>'')"
proof -
  have h: "honours_class example_highlighter"
  proof (unfold honours_class_def has_class_def, intro allI impI)
    fix source f l out assume "example_highlighter source f l = Inr out"
    then have "out = ''<div '' @ ''class='' @ [CHR 0x22] @ cssclass f @ [CHR 0x22]
                 @ (''><pre>'' @ l @ '':'' @ source @ ''</pre></div>'')"
      by (simp add: example_highlighter_def)
    then show "\<exists>pre post. out = pre @ ''class='' @ [CHR 0x22] @ cssclass f @ [CHR 0x22] @ post"
      by blast
  qed
  have k: "knows_lexer example_highlighter ''ipython''"
    by (simp add: knows_lexer_def example_highlighter_def)
  have e: "custom_highlighter example_highlighter ''x = 1'' (Some [])
       = Inr (''<div class='' @ [CHR 0x22] @ ''highlight-ipynb'' @ [CHR 0x22] @ ''><pre>ipython:x = 1</pre></div>'')"
    by (simp add: custom_highlighter_def example_highlighter_def HtmlFormatter_def)
  show ?thesis
    using h k e custom_highlighter_class_and_default [OF h k, of "''x = 1''" "Some []"]
    by simp
qed

end
